theory Spec2Isabelle
  imports Complex_Main "HOL-Library.Multiset"
begin

section \<open>Data model of baseball.py\<close>

text \<open>
  The program is Python 2: \<open>/\<close> on integers is floor division (HOL's \<open>div\<close> on
  \<open>int\<close>), a negative list index counts from the end of the list, and an index out of
  range raises \<open>IndexError\<close>. Every exception the modelled code can raise is a value of
  \<open>error\<close>; a function that can raise returns \<open>error + 'a\<close>, with \<open>Inl\<close> the exception.

  \<open>PlayerRecord\<close> objects are shared between the tracker's dictionary and the four heaps
  and are mutated in place, so they live in an explicit object store: a reference is a
  natural number, the store maps references to records, and the dictionary and the heap
  arrays hold references.

  The field \<open>avg\<close> is a Python float computed as \<open>float(hits) / float(ab)\<close>. It is
  modelled as the exact quotient in \<open>rat\<close>; the rounding of IEEE doubles is not modelled.
  The two agree wherever the quotient is a double (as \<open>1\<close>, \<open>1/2\<close> and \<open>3/4\<close> are), and
  rounding is monotone, so it can only turn a strict comparison of two averages into a tie.
  The integer keys \<open>ab\<close>, \<open>hits\<close> and \<open>rbi\<close> are embedded in \<open>rat\<close> exactly.
\<close>

datatype error = IndexError | TypeError | AttributeError | ZeroDivisionError

type_synonym ref = nat

record PlayerRecord =
  player :: "string option"
  ab :: int
  hits :: int
  avg :: rat
  rbi :: int

type_synonym store = "ref \<Rightarrow> PlayerRecord"

text \<open>\<open>PlayerRecord.__init__\<close>\<close>

definition PlayerRecord_init :: "string option \<Rightarrow> int \<Rightarrow> int \<Rightarrow> int \<Rightarrow> PlayerRecord" where
  "PlayerRecord_init p a h r =
     \<lparr>player = p, ab = a, hits = h,
      avg = (if a = 0 then 0 else of_int h / of_int a),
      rbi = r\<rparr>"

text \<open>
  The heap's \<open>sorting_key\<close> is the name of an attribute read with \<open>getattr\<close>; \<open>Problem\<close>
  builds heaps for the four numeric attributes only.
\<close>

datatype stat = Ab | Hits | Rbi | Avg

fun getattr :: "PlayerRecord \<Rightarrow> stat \<Rightarrow> rat" where
  "getattr r Ab = of_int (ab r)"
| "getattr r Hits = of_int (hits r)"
| "getattr r Rbi = of_int (rbi r)"
| "getattr r Avg = avg r"

record Heap =
  heap :: "ref list"
  mapping :: "string option \<rightharpoonup> int"
  sorting_key :: stat

text \<open>\<open>Heap.__init__\<close>\<close>

definition Heap_init :: "stat \<Rightarrow> Heap" where
  "Heap_init k = \<lparr>heap = [], mapping = Map.empty, sorting_key = k\<rparr>"

subsection \<open>Python list indexing\<close>

definition norm_index :: "nat \<Rightarrow> int \<Rightarrow> nat option" where
  "norm_index n i =
     (let j = (if i < 0 then i + int n else i)
      in if 0 \<le> j \<and> j < int n then Some (nat j) else None)"

definition getitem :: "'a list \<Rightarrow> int \<Rightarrow> error + 'a" where
  "getitem xs i =
     (case norm_index (length xs) i of None \<Rightarrow> Inl IndexError | Some j \<Rightarrow> Inr (xs ! j))"

definition setitem :: "'a list \<Rightarrow> int \<Rightarrow> 'a \<Rightarrow> error + 'a list" where
  "setitem xs i v =
     (case norm_index (length xs) i of None \<Rightarrow> Inl IndexError | Some j \<Rightarrow> Inr (xs[j := v]))"

text \<open>\<open>list.pop(i)\<close>: the element removed and the list without it.\<close>

definition pop :: "'a list \<Rightarrow> int \<Rightarrow> error + ('a \<times> 'a list)" where
  "pop xs i =
     (case norm_index (length xs) i of
        None \<Rightarrow> Inl IndexError
      | Some j \<Rightarrow> Inr (xs ! j, take j xs @ drop (Suc j) xs))"

section \<open>The indexed heap\<close>

definition key_of :: "store \<Rightarrow> Heap \<Rightarrow> ref \<Rightarrow> rat" where
  "key_of st h e = getattr (st e) (sorting_key h)"

text \<open>
  Lines 48-54 and 88-94: the two dictionary entries are exchanged, then the two array
  slots. The block is the same in \<open>heapify_up\<close> and \<open>heapify_down\<close>.
\<close>

definition swap_entries :: "store \<Rightarrow> Heap \<Rightarrow> int \<Rightarrow> int \<Rightarrow> error + Heap" where
  "swap_entries st h parent child =
     (case getitem (heap h) parent of Inl e \<Rightarrow> Inl e | Inr pe \<Rightarrow>
      (case getitem (heap h) child of Inl e \<Rightarrow> Inl e | Inr ce \<Rightarrow>
       (let m1 = (mapping h)(player (st pe) \<mapsto> child);
            m2 = m1(player (st ce) \<mapsto> parent)
        in case setitem (heap h) parent ce of Inl e \<Rightarrow> Inl e | Inr xs1 \<Rightarrow>
           (case setitem xs1 child pe of Inl e \<Rightarrow> Inl e | Inr xs2 \<Rightarrow>
              Inr (h\<lparr>heap := xs2, mapping := m2\<rparr>)))))"

text \<open>
  \<open>Heap.heapify_up\<close>. The variable \<open>parent\<close> is assigned \<open>(child - 1) / 2\<close> before the loop
  and again whenever \<open>child\<close> changes, so at the loop head it is a function of \<open>child\<close>.
\<close>

function heapify_up :: "store \<Rightarrow> Heap \<Rightarrow> int \<Rightarrow> error + Heap" where
  "heapify_up st h child =
     (let parent = (child - 1) div 2 in
      case getitem (heap h) parent of Inl e \<Rightarrow> Inl e | Inr pe \<Rightarrow>
      (case getitem (heap h) child of Inl e \<Rightarrow> Inl e | Inr ce \<Rightarrow>
         if key_of st h pe < key_of st h ce then
           if parent = - 1 then Inr h
           else (case swap_entries st h parent child of
                   Inl e \<Rightarrow> Inl e
                 | Inr h' \<Rightarrow> heapify_up st h' parent)
         else Inr h))"
  by pat_completeness auto

lemma getitem_in_range:
  "getitem xs i = Inr a \<Longrightarrow> - int (length xs) \<le> i \<and> i < int (length xs)"
  by (auto simp: getitem_def norm_index_def Let_def split: if_splits option.splits)

termination heapify_up
proof (relation "measure (\<lambda>(st, h, child). nat \<bar>child\<bar>)", goal_cases)
  case 1
  show ?case by simp
next
  case (2 st h child parent pe ce h')
  have ne: "pe \<noteq> ce" using 2(4) by auto
  have "child \<noteq> - 2"
  proof
    assume "child = - 2"
    then have "parent = child" using 2(1) by simp
    with 2(2,3) ne show False by simp
  qed
  moreover have "child \<noteq> 0" "child \<noteq> - 1" using 2(1,5) by auto
  ultimately have "\<bar>(child - 1) div 2\<bar> < \<bar>child\<bar>" by linarith
  then show ?case using 2(1) by simp
qed

declare heapify_up.simps [simp del]

text \<open>
  Lines 69-78 and 98-107 of \<open>Heap.heapify_down\<close>: the child to compare with, \<open>None\<close> when
  \<open>parent\<close> has no left child (the \<open>return\<close> before the loop, the \<open>break\<close> inside it).
\<close>

definition pick_child :: "store \<Rightarrow> Heap \<Rightarrow> int \<Rightarrow> error + int option" where
  "pick_child st h parent =
     (let left = parent * 2 + 1; right = parent * 2 + 2 in
      if int (length (heap h)) \<le> left then Inr None
      else if int (length (heap h)) \<le> right then Inr (Some left)
      else (case getitem (heap h) left of Inl e \<Rightarrow> Inl e | Inr le \<Rightarrow>
            (case getitem (heap h) right of Inl e \<Rightarrow> Inl e | Inr re \<Rightarrow>
               if key_of st h le > key_of st h re then Inr (Some left)
               else Inr (Some right))))"

text \<open>The \<open>while\<close> loop of \<open>Heap.heapify_down\<close>, lines 79-107.\<close>

function heapify_down_loop :: "store \<Rightarrow> Heap \<Rightarrow> int \<Rightarrow> int \<Rightarrow> error + Heap" where
  "heapify_down_loop st h parent child =
     (case getitem (heap h) parent of Inl e \<Rightarrow> Inl e | Inr pe \<Rightarrow>
      (case getitem (heap h) child of Inl e \<Rightarrow> Inl e | Inr ce \<Rightarrow>
         if key_of st h pe < key_of st h ce then
           if child \<ge> int (length (heap h)) then Inr h
           else (case swap_entries st h parent child of
                   Inl e \<Rightarrow> Inl e
                 | Inr h' \<Rightarrow>
                    (case pick_child st h' child of
                       Inl e \<Rightarrow> Inl e
                     | Inr None \<Rightarrow> Inr h'
                     | Inr (Some c) \<Rightarrow> heapify_down_loop st h' child c))
         else Inr h))"
  by pat_completeness auto

lemma setitem_length: "setitem xs i v = Inr ys \<Longrightarrow> length ys = length xs"
  by (auto simp: setitem_def split: option.splits)

lemma swap_entries_length:
  "swap_entries st h p c = Inr h' \<Longrightarrow> length (heap h') = length (heap h)"
  by (auto simp: swap_entries_def Let_def split: sum.splits dest!: setitem_length)

lemma pick_child_cases:
  assumes "pick_child st h p = Inr (Some c)"
  shows "(c = p * 2 + 1 \<or> c = p * 2 + 2) \<and> c < int (length (heap h))
         \<and> (p \<le> - 2 \<longrightarrow> - int (length (heap h)) \<le> c)"
  using assms
  by (auto simp: pick_child_def Let_def split: if_splits sum.splits dest: getitem_in_range)

termination heapify_down_loop
proof (relation "measure (\<lambda>(st, h, parent, child).
          if parent = child then 0
          else 1 + (if 0 \<le> child then nat (int (length (heap h)) - child)
                    else if child = - 1 then length (heap h) + 1
                    else nat (child + int (length (heap h)))))", goal_cases)
  case 1
  show ?case by simp
next
  case (2 st h parent child pe ce h' copt c)
  have len: "length (heap h') = length (heap h)"
    using 2(5) by (rule swap_entries_length)
  have pc: "(c = child * 2 + 1 \<or> c = child * 2 + 2) \<and> c < int (length (heap h))
         \<and> (child \<le> - 2 \<longrightarrow> - int (length (heap h)) \<le> c)"
    using pick_child_cases[of st h' child c] 2(6,7) len by simp
  have rng: "- int (length (heap h)) \<le> child" "child < int (length (heap h))"
    using getitem_in_range[OF 2(2)] by auto
  have "parent \<noteq> child"
    using 2(1,2,3) by auto
  then show ?case using pc rng len by (auto split: if_splits)
qed

declare heapify_down_loop.simps [simp del]

text \<open>\<open>Heap.heapify_down\<close>\<close>

definition heapify_down :: "store \<Rightarrow> Heap \<Rightarrow> int \<Rightarrow> error + Heap" where
  "heapify_down st h parent =
     (case pick_child st h parent of
        Inl e \<Rightarrow> Inl e
      | Inr None \<Rightarrow> Inr h
      | Inr (Some child) \<Rightarrow> heapify_down_loop st h parent child)"

text \<open>
  \<open>Heap.extract_max\<close>. The result is \<open>None\<close> on an empty heap (the bare \<open>return\<close>).
  The first and last slots are exchanged by plain array assignments; the dictionary
  \<open>mapping\<close> is not touched here.
\<close>

definition extract_max :: "store \<Rightarrow> Heap \<Rightarrow> error + (ref option \<times> Heap)" where
  "extract_max st h =
     (if length (heap h) < 1 then Inr (None, h)
      else
        (case getitem (heap h) 0 of Inl e \<Rightarrow> Inl e | Inr temp \<Rightarrow>
         (case getitem (heap h) (int (length (heap h)) - 1) of Inl e \<Rightarrow> Inl e | Inr l \<Rightarrow>
          (case setitem (heap h) 0 l of Inl e \<Rightarrow> Inl e | Inr xs1 \<Rightarrow>
           (case setitem xs1 (int (length xs1) - 1) temp of Inl e \<Rightarrow> Inl e | Inr xs2 \<Rightarrow>
            (case pop xs2 (int (length xs2) - 1) of Inl e \<Rightarrow> Inl e | Inr (output, xs3) \<Rightarrow>
             (case heapify_down st (h\<lparr>heap := xs3\<rparr>) 0 of
                Inl e \<Rightarrow> Inl e
              | Inr h' \<Rightarrow> Inr (Some output, h'))))))))"

text \<open>\<open>Heap.insert\<close>\<close>

definition insert_heap :: "store \<Rightarrow> Heap \<Rightarrow> ref \<Rightarrow> error + Heap" where
  "insert_heap st h element =
     (let xs = heap h @ [element];
          child = int (length xs) - 1;
          m = (mapping h)(player (st element) \<mapsto> child)
      in heapify_up st (h\<lparr>heap := xs, mapping := m\<rparr>) child)"

text \<open>\<open>Heap.get_index\<close>: \<open>None\<close> is Python's \<open>None\<close>.\<close>

definition get_index :: "store \<Rightarrow> Heap \<Rightarrow> ref \<Rightarrow> int option" where
  "get_index st h element = mapping h (player (st element))"

text \<open>
  \<open>Heap.validate_heap\<close>. \<open>remaining_elements\<close> is used as a stack whose top is the end of
  the list. It starts as \<open>[0]\<close> and only receives \<open>2 * parent + 1\<close> and \<open>2 * parent + 2\<close>,
  so its entries are natural numbers; \<open>heap[parent]\<close> is read only after a child index
  was found below \<open>n\<close>, so no read is out of range.
\<close>

function validate_loop :: "rat list \<Rightarrow> nat list \<Rightarrow> bool" where
  "validate_loop hp remaining_elements =
     (if length remaining_elements \<noteq> 0 then
        (let parent = last remaining_elements;
             r0 = butlast remaining_elements;
             child1 = 2 * parent + 1;
             child2 = 2 * parent + 2;
             n = length hp;
             r1 = (if child1 < n then r0 @ [child1] else r0)
         in if child1 < n \<and> hp ! child1 > hp ! parent then False
            else (let r2 = (if child2 < n then r1 @ [child2] else r1)
                  in if child2 < n \<and> hp ! child2 > hp ! parent then False
                     else validate_loop hp r2))
      else True)"
  by pat_completeness auto

definition stack_weight :: "nat \<Rightarrow> nat list \<Rightarrow> nat" where
  "stack_weight n xs = sum_list (map (\<lambda>i. 2 ^ (n - i)) xs)"

lemma stack_weight_append:
  "stack_weight n (xs @ ys) = stack_weight n xs + stack_weight n ys"
  by (simp add: stack_weight_def)

lemma stack_weight_pop:
  "xs \<noteq> [] \<Longrightarrow> stack_weight n xs = stack_weight n (butlast xs) + 2 ^ (n - last xs)"
  using stack_weight_append[of n "butlast xs" "[last xs]"]
  by (simp add: stack_weight_def)

lemma children_weight:
  assumes "2 * p + 2 < n"
  shows "(2::nat) ^ (n - (2 * p + 1)) + 2 ^ (n - (2 * p + 2)) < 2 ^ (n - p)"
proof -
  obtain a where a: "n = 2 * p + 2 + a" "0 < a"
    using assms by (metis add.commute less_imp_add_positive)
  have "(2::nat) ^ (n - (2 * p + 1)) + 2 ^ (n - (2 * p + 2)) = 3 * 2 ^ a"
    using a by (simp add: algebra_simps)
  also have "\<dots> < 2 ^ (a + 2)" by simp
  also have "\<dots> \<le> 2 ^ (n - p)"
    using a by (intro power_increasing) auto
  finally show ?thesis .
qed

lemma child_weight:
  assumes "2 * p + 1 < n"
  shows "(2::nat) ^ (n - (2 * p + 1)) < 2 ^ (n - p)"
  using assms by (intro power_strict_increasing) auto

termination validate_loop
proof (relation "measure (\<lambda>(hp, r). stack_weight (length hp) r)", goal_cases)
  case 1
  show ?case by simp
next
  case (2 hp r parent r0 child1 child2 n r1 r2)
  have ne: "r \<noteq> []" using 2(1) by auto
  have w: "stack_weight n r = stack_weight n r0 + 2 ^ (n - parent)"
    using stack_weight_pop[OF ne, of n] 2(2,3) by simp
  have pos: "(0::nat) < 2 ^ (n - parent)" by simp
  have "stack_weight n r2 < stack_weight n r"
  proof (cases "child2 < n")
    case True
    then have "child1 < n" using 2(4,5) by simp
    then have "stack_weight n r2 =
        stack_weight n r0 + (2 ^ (n - (2 * parent + 1)) + 2 ^ (n - (2 * parent + 2)))"
      using True 2(4,5,7,9) by (simp add: stack_weight_append stack_weight_def)
    then show ?thesis using children_weight[of parent n] True 2(5) w by simp
  next
    case False
    show ?thesis
    proof (cases "child1 < n")
      case True
      then have "stack_weight n r2 = stack_weight n r0 + 2 ^ (n - (2 * parent + 1))"
        using False 2(4,7,9) by (simp add: stack_weight_append stack_weight_def)
      then show ?thesis using child_weight[of parent n] True 2(4) w by simp
    next
      case c1: False
      then have "r2 = r0" using False 2(7,9) by simp
      then show ?thesis using w pos by simp
    qed
  qed
  then show ?case using 2(6) by simp
qed

declare validate_loop.simps [simp del]

definition validate_heap :: "store \<Rightarrow> Heap \<Rightarrow> bool" where
  "validate_heap st h = validate_loop (map (key_of st h) (heap h)) [0]"

section \<open>The tracker\<close>

record Problem =
  player_record_mapping :: "string \<rightharpoonup> ref"
  abHeap :: Heap
  hitsHeap :: Heap
  rbiHeap :: Heap
  avgHeap :: Heap

text \<open>\<open>Problem.__init__\<close>\<close>

definition Problem_init :: Problem where
  "Problem_init =
     \<lparr>player_record_mapping = Map.empty,
      abHeap = Heap_init Ab, hitsHeap = Heap_init Hits,
      rbiHeap = Heap_init Rbi, avgHeap = Heap_init Avg\<rparr>"

text \<open>
  What a method of \<open>Problem\<close> reads and writes: the object store with the next unused
  reference, the lines printed so far, and the \<open>Problem\<close> instance itself.
\<close>

record world =
  objects :: store
  fresh :: ref
  stdout :: "string list"
  problem :: Problem

definition world_init :: world where
  "world_init =
     \<lparr>objects = (\<lambda>_. PlayerRecord_init None 0 0 0), fresh = 0, stdout = [],
      problem = Problem_init\<rparr>"

text \<open>
  A repair call of \<open>new_at_bat\<close>, as in
  \<open>self.abHeap.heapify_up(self.abHeap.get_index(currentRecord))\<close>: when \<open>get_index\<close>
  returns \<open>None\<close>, the arithmetic on it at the start of \<open>heapify_up\<close> or \<open>heapify_down\<close>
  raises \<open>TypeError\<close>.
\<close>

definition repair_up :: "store \<Rightarrow> Heap \<Rightarrow> ref \<Rightarrow> error + Heap" where
  "repair_up st h r =
     (case get_index st h r of None \<Rightarrow> Inl TypeError | Some i \<Rightarrow> heapify_up st h i)"

definition repair_down :: "store \<Rightarrow> Heap \<Rightarrow> ref \<Rightarrow> error + Heap" where
  "repair_down st h r =
     (case get_index st h r of None \<Rightarrow> Inl TypeError | Some i \<Rightarrow> heapify_down st h i)"

text \<open>
  \<open>Problem.new_at_bat\<close>. In the first branch the record is mutated in the store, so
  all four heaps see the new field values before any of them is repaired. In the second
  branch a new object is allocated at the next unused reference.
\<close>

definition new_at_bat :: "world \<Rightarrow> string \<Rightarrow> int \<Rightarrow> int \<Rightarrow> error + world" where
  "new_at_bat w p dh dr =
     (let P = problem w in
      case player_record_mapping P p of
        Some currentRecord \<Rightarrow>
          (let r0 = objects w currentRecord;
               r1 = r0\<lparr>ab := ab r0 + 1\<rparr>;
               r2 = r1\<lparr>hits := hits r1 + dh\<rparr>;
               r3 = r2\<lparr>rbi := rbi r2 + dr\<rparr>
           in if ab r3 = 0 then Inl ZeroDivisionError
              else
                (let r4 = r3\<lparr>avg := of_int (hits r3) / of_int (ab r3)\<rparr>;
                     st = (objects w)(currentRecord := r4)
                 in case repair_up st (abHeap P) currentRecord of Inl e \<Rightarrow> Inl e | Inr abH \<Rightarrow>
                    (case repair_up st (hitsHeap P) currentRecord of Inl e \<Rightarrow> Inl e | Inr hitsH \<Rightarrow>
                     (case repair_up st (rbiHeap P) currentRecord of Inl e \<Rightarrow> Inl e | Inr rbiH \<Rightarrow>
                      (case (if dh = 0 then repair_down st (avgHeap P) currentRecord
                             else repair_up st (avgHeap P) currentRecord) of
                         Inl e \<Rightarrow> Inl e
                       | Inr avgH \<Rightarrow>
                           Inr (w\<lparr>objects := st,
                                  problem := P\<lparr>abHeap := abH, hitsHeap := hitsH,
                                               rbiHeap := rbiH, avgHeap := avgH\<rparr>\<rparr>))))))
      | None \<Rightarrow>
          (let playerRecord = fresh w;
               st = (objects w)(playerRecord := PlayerRecord_init (Some p) 1 dh dr)
           in case insert_heap st (abHeap P) playerRecord of Inl e \<Rightarrow> Inl e | Inr abH \<Rightarrow>
              (case insert_heap st (hitsHeap P) playerRecord of Inl e \<Rightarrow> Inl e | Inr hitsH \<Rightarrow>
               (case insert_heap st (rbiHeap P) playerRecord of Inl e \<Rightarrow> Inl e | Inr rbiH \<Rightarrow>
                (case insert_heap st (avgHeap P) playerRecord of Inl e \<Rightarrow> Inl e | Inr avgH \<Rightarrow>
                   Inr (w\<lparr>objects := st, fresh := Suc playerRecord,
                          problem := P\<lparr>player_record_mapping :=
                                           (player_record_mapping P)(p \<mapsto> playerRecord),
                                       abHeap := abH, hitsHeap := hitsH,
                                       rbiHeap := rbiH, avgHeap := avgH\<rparr>\<rparr>))))))"

text \<open>
  \<open>Problem.current_stats\<close>. The caller only reads the fields of the result, so the model
  returns the record itself; for an unknown player that is a new \<open>PlayerRecord(None, 1, 0, 0)\<close>
  that is stored nowhere.
\<close>

definition current_stats :: "world \<Rightarrow> string \<Rightarrow> PlayerRecord" where
  "current_stats w p =
     (case player_record_mapping (problem w) p of
        Some r \<Rightarrow> objects w r
      | None \<Rightarrow> PlayerRecord_init None 1 0 0)"

text \<open>The chain of string comparisons at the start of \<open>Problem.current_best\<close>.\<close>

definition heap_named :: "string \<Rightarrow> stat option" where
  "heap_named s =
     (if s = ''ab'' then Some Ab
      else if s = ''hits'' then Some Hits
      else if s = ''rbi'' then Some Rbi
      else if s = ''avg'' then Some Avg
      else None)"

fun the_heap :: "Problem \<Rightarrow> stat \<Rightarrow> Heap" where
  "the_heap P Ab = abHeap P"
| "the_heap P Hits = hitsHeap P"
| "the_heap P Rbi = rbiHeap P"
| "the_heap P Avg = avgHeap P"

fun set_heap :: "Problem \<Rightarrow> stat \<Rightarrow> Heap \<Rightarrow> Problem" where
  "set_heap P Ab h = P\<lparr>abHeap := h\<rparr>"
| "set_heap P Hits h = P\<lparr>hitsHeap := h\<rparr>"
| "set_heap P Rbi h = P\<lparr>rbiHeap := h\<rparr>"
| "set_heap P Avg h = P\<lparr>avgHeap := h\<rparr>"

text \<open>
  The two \<open>for\<close> loops of \<open>current_best\<close>. An entry of \<open>output\<close> is what \<open>extract_max\<close>
  returned, so it may be \<open>None\<close>; \<open>insert(None)\<close> raises \<open>AttributeError\<close> at
  \<open>element.player\<close>.
\<close>

fun extract_loop ::
  "store \<Rightarrow> nat \<Rightarrow> Heap \<Rightarrow> ref option list \<Rightarrow> error + (ref option list \<times> Heap)" where
  "extract_loop st 0 h output = Inr (output, h)"
| "extract_loop st (Suc n) h output =
     (case extract_max st h of
        Inl e \<Rightarrow> Inl e
      | Inr (x, h') \<Rightarrow> extract_loop st n h' (output @ [x]))"

fun insert_loop :: "store \<Rightarrow> ref option list \<Rightarrow> Heap \<Rightarrow> error + Heap" where
  "insert_loop st [] h = Inr h"
| "insert_loop st (i # rest) h =
     (case i of
        None \<Rightarrow> Inl AttributeError
      | Some element \<Rightarrow>
          (case insert_heap st h element of
             Inl e \<Rightarrow> Inl e
           | Inr h' \<Rightarrow> insert_loop st rest h'))"

text \<open>
  \<open>Problem.current_best\<close>. The result is \<open>None\<close> after \<open>print 'not valid'\<close>, and the list
  \<open>output\<close> otherwise. \<open>range(size)\<close> is empty when \<open>size\<close> is negative.
\<close>

definition current_best ::
  "world \<Rightarrow> string \<Rightarrow> int \<Rightarrow> error + (ref option list option \<times> world)" where
  "current_best w s k =
     (case heap_named s of
        None \<Rightarrow> Inr (None, w\<lparr>stdout := stdout w @ [''not valid'']\<rparr>)
      | Some a \<Rightarrow>
          (let theHeap = the_heap (problem w) a;
               size = min k (int (length (heap theHeap)))
           in case extract_loop (objects w) (nat size) theHeap [] of
                Inl e \<Rightarrow> Inl e
              | Inr (output, h1) \<Rightarrow>
                  (case insert_loop (objects w) output h1 of
                     Inl e \<Rightarrow> Inl e
                   | Inr h2 \<Rightarrow>
                       Inr (Some output, w\<lparr>problem := set_heap (problem w) a h2\<rparr>))))"

text \<open>
  The operations the driver \<open>run_from_list\<close> performs on one \<open>Problem\<close>, after parsing:
  \<open>n\<close>, \<open>cs\<close> and \<open>cb\<close> lines. Only the state is followed here.
\<close>

datatype operation = OpN string int int | OpCS string | OpCB string int

fun apply_operation :: "world \<Rightarrow> operation \<Rightarrow> error + world" where
  "apply_operation w (OpN p dh dr) = new_at_bat w p dh dr"
| "apply_operation w (OpCS p) = Inr w"
| "apply_operation w (OpCB s k) =
     (case current_best w s k of Inl e \<Rightarrow> Inl e | Inr (cb, w') \<Rightarrow> Inr w')"

fun run_operations :: "world \<Rightarrow> operation list \<Rightarrow> error + world" where
  "run_operations w [] = Inr w"
| "run_operations w (x # xs) =
     (case apply_operation w x of Inl e \<Rightarrow> Inl e | Inr w' \<Rightarrow> run_operations w' xs)"

lemma norm_index_nat: "0 \<le> i \<Longrightarrow> i < int n \<Longrightarrow> norm_index n i = Some (nat i)"
  by (simp add: norm_index_def)

lemma getitem_nat: "0 \<le> i \<Longrightarrow> i < int (length xs) \<Longrightarrow> getitem xs i = Inr (xs ! nat i)"
  by (simp add: getitem_def norm_index_nat)

lemma getitem_minus_one: "xs \<noteq> [] \<Longrightarrow> getitem xs (- 1) = Inr (last xs)"
  by (cases xs rule: rev_cases) (auto simp: getitem_def norm_index_def)

lemma getitem_empty: "getitem [] i = Inl IndexError"
  by (simp add: getitem_def norm_index_def)

lemma setitem_nat:
  "0 \<le> i \<Longrightarrow> i < int (length xs) \<Longrightarrow> setitem xs i v = Inr (xs[nat i := v])"
  by (simp add: setitem_def norm_index_nat)

lemma pop_last: "xs \<noteq> [] \<Longrightarrow> pop xs (int (length xs) - 1) = Inr (last xs, butlast xs)"
  by (cases xs rule: rev_cases) (auto simp: pop_def norm_index_def nth_append)

lemma swap_entries_nat:
  assumes "0 \<le> p" "p < int (length (heap h))" "0 \<le> c" "c < int (length (heap h))"
  shows "swap_entries st h p c =
         Inr (h\<lparr>heap := (heap h)[nat p := heap h ! nat c, nat c := heap h ! nat p],
                mapping := (mapping h)(player (st (heap h ! nat p)) \<mapsto> c,
                                       player (st (heap h ! nat c)) \<mapsto> p)\<rparr>)"
  using assms by (simp add: swap_entries_def getitem_nat setitem_nat Let_def)

definition mapping_bounded :: "nat \<Rightarrow> Heap \<Rightarrow> bool" where
  "mapping_bounded N h \<longleftrightarrow> (\<forall>p i. mapping h p = Some i \<longrightarrow> 0 \<le> i \<and> i < int N)"

definition maps_kept :: "nat \<Rightarrow> Heap \<Rightarrow> Heap \<Rightarrow> bool" where
  "maps_kept N h h' \<longleftrightarrow>
     sorting_key h' = sorting_key h \<and> dom (mapping h) \<subseteq> dom (mapping h') \<and>
     (mapping_bounded N h \<longrightarrow> mapping_bounded N h')"

lemma maps_kept_refl: "maps_kept N h h"
  by (simp add: maps_kept_def)

lemma maps_kept_trans: "maps_kept N h1 h2 \<Longrightarrow> maps_kept N h2 h3 \<Longrightarrow> maps_kept N h1 h3"
  by (auto simp: maps_kept_def)

lemma swap_entries_kept:
  assumes "0 \<le> p" "p < int (length (heap h))" "0 \<le> c" "c < int (length (heap h))"
    and "length (heap h) \<le> N" and "swap_entries st h p c = Inr h'"
  shows "mset (heap h') = mset (heap h) \<and> maps_kept N h h'"
proof -
  have h': "h' = h\<lparr>heap := (heap h)[nat p := heap h ! nat c, nat c := heap h ! nat p],
                mapping := (mapping h)(player (st (heap h ! nat p)) \<mapsto> c,
                                       player (st (heap h ! nat c)) \<mapsto> p)\<rparr>"
    using swap_entries_nat[OF assms(1-4), of st] assms(6) by simp
  have "mset ((heap h)[nat p := heap h ! nat c, nat c := heap h ! nat p]) = mset (heap h)"
    using assms(1-4) by (simp add: mset_swap)
  moreover have "maps_kept N h h'"
    using assms(1-5) unfolding h' maps_kept_def mapping_bounded_def by auto
  ultimately show ?thesis unfolding h' by simp
qed

lemma heapify_up_root: "heap h \<noteq> [] \<Longrightarrow> heapify_up st h 0 = Inr h"
  by (simp add: heapify_up.simps[of st h 0] getitem_minus_one getitem_nat Let_def)

lemma heapify_up_kept:
  "0 \<le> c \<Longrightarrow> c < int (length (heap h)) \<Longrightarrow> length (heap h) \<le> N \<Longrightarrow>
   \<exists>h'. heapify_up st h c = Inr h' \<and> mset (heap h') = mset (heap h) \<and> maps_kept N h h'"
proof (induction st h c rule: heapify_up.induct)
  case (1 st h child)
  let ?parent = "(child - 1) div 2"
  have ne: "heap h \<noteq> []" using 1(2,3) by auto
  show ?case
  proof (cases "child = 0")
    case True
    then show ?thesis using ne
      by (simp add: heapify_up_root maps_kept_refl)
  next
    case False
    then have p: "0 \<le> ?parent" "?parent < child" "?parent \<noteq> - 1" using 1(2) by auto
    then have pl: "?parent < int (length (heap h))" using 1(3) by simp
    have gp: "getitem (heap h) ?parent = Inr (heap h ! nat ?parent)"
      using p pl by (simp add: getitem_nat)
    have gc: "getitem (heap h) child = Inr (heap h ! nat child)"
      using 1(2,3) by (simp add: getitem_nat)
    show ?thesis
    proof (cases "key_of st h (heap h ! nat ?parent) < key_of st h (heap h ! nat child)")
      case lt: True
      obtain h1 where h1: "swap_entries st h ?parent child = Inr h1"
        using swap_entries_nat[OF p(1) pl 1(2,3)] by blast
      have k1: "mset (heap h1) = mset (heap h)" "maps_kept N h h1"
        using swap_entries_kept[OF p(1) pl 1(2,3) 1(4) h1] by auto
      have len1: "length (heap h1) = length (heap h)"
        using h1 by (rule swap_entries_length)
      have "\<exists>h'. heapify_up st h1 ?parent = Inr h' \<and> mset (heap h') = mset (heap h1)
                \<and> maps_kept N h1 h'"
        using "1.IH"[OF refl gp gc lt p(3) h1 p(1)] pl len1 1(4) by simp
      then obtain h' where h': "heapify_up st h1 ?parent = Inr h'"
        "mset (heap h') = mset (heap h1)" "maps_kept N h1 h'" by blast
      have "heapify_up st h child = Inr h'"
        using gp gc lt p(3) h1 h'(1) by (simp add: heapify_up.simps[of st h child])
      then show ?thesis using h'(2,3) k1 maps_kept_trans by auto
    next
      case ge: False
      then show ?thesis using gp gc
        by (simp add: heapify_up.simps[of st h child] maps_kept_refl)
    qed
  qed
qed



lemma pick_child_total:
  assumes "0 \<le> p"
  shows "\<exists>r. pick_child st h p = Inr r \<and>
             (\<forall>c. r = Some c \<longrightarrow> p < c \<and> c < int (length (heap h)))"
  using assms
  by (auto simp: pick_child_def Let_def getitem_nat)

lemma heapify_down_loop_kept:
  "0 \<le> p \<Longrightarrow> p < c \<Longrightarrow> c < int (length (heap h)) \<Longrightarrow> length (heap h) \<le> N \<Longrightarrow>
   \<exists>h'. heapify_down_loop st h p c = Inr h' \<and> mset (heap h') = mset (heap h)
        \<and> maps_kept N h h'"
proof (induction st h p c rule: heapify_down_loop.induct)
  case (1 st h parent child)
  have c0: "0 \<le> child" and pl: "parent < int (length (heap h))"
    using 1(2,3,4) by auto
  have gp: "getitem (heap h) parent = Inr (heap h ! nat parent)"
    using 1(2) pl by (simp add: getitem_nat)
  have gc: "getitem (heap h) child = Inr (heap h ! nat child)"
    using c0 1(4) by (simp add: getitem_nat)
  show ?case
  proof (cases "key_of st h (heap h ! nat parent) < key_of st h (heap h ! nat child)")
    case lt: True
    obtain h1 where h1: "swap_entries st h parent child = Inr h1"
      using swap_entries_nat[OF 1(2) pl c0 1(4)] by blast
    have k1: "mset (heap h1) = mset (heap h)" "maps_kept N h h1"
      using swap_entries_kept[OF 1(2) pl c0 1(4) 1(5) h1] by auto
    have len1: "length (heap h1) = length (heap h)"
      using h1 by (rule swap_entries_length)
    obtain r where r: "pick_child st h1 child = Inr r"
      "\<forall>c. r = Some c \<longrightarrow> child < c \<and> c < int (length (heap h1))"
      using pick_child_total[OF c0, of st h1] by blast
    show ?thesis
    proof (cases r)
      case None
      then have "heapify_down_loop st h parent child = Inr h1"
        using gp gc lt 1(4) h1 r(1) by (simp add: heapify_down_loop.simps[of st h parent child])
      then show ?thesis using k1 by simp
    next
      case (Some c')
      have nge: "\<not> int (length (heap h)) \<le> child" using 1(4) by simp
      have "\<exists>h'. heapify_down_loop st h1 child c' = Inr h' \<and> mset (heap h') = mset (heap h1)
                \<and> maps_kept N h1 h'"
        using "1.IH"[OF gp gc lt nge h1 r(1)[unfolded Some] refl c0] r(2) Some len1 1(5)
        by simp
      then obtain h' where h': "heapify_down_loop st h1 child c' = Inr h'"
        "mset (heap h') = mset (heap h1)" "maps_kept N h1 h'" by blast
      have "heapify_down_loop st h parent child = Inr h'"
        using gp gc lt 1(4) h1 r(1) Some h'(1)
        by (simp add: heapify_down_loop.simps[of st h parent child])
      then show ?thesis using h'(2,3) k1 maps_kept_trans by auto
    qed
  next
    case False
    then show ?thesis using gp gc
      by (simp add: heapify_down_loop.simps[of st h parent child] maps_kept_refl)
  qed
qed

lemma heapify_down_kept:
  assumes "0 \<le> p" "length (heap h) \<le> N"
  shows "\<exists>h'. heapify_down st h p = Inr h' \<and> mset (heap h') = mset (heap h)
        \<and> maps_kept N h h'"
proof -
  obtain r where r: "pick_child st h p = Inr r"
      "\<forall>c. r = Some c \<longrightarrow> p < c \<and> c < int (length (heap h))"
    using pick_child_total[OF assms(1), of st h] by blast
  show ?thesis
  proof (cases r)
    case None
    then show ?thesis using r(1) by (simp add: heapify_down_def maps_kept_refl)
  next
    case (Some c)
    then show ?thesis
      using r heapify_down_loop_kept[OF assms(1), of c h N st] assms(2)
      by (simp add: heapify_down_def)
  qed
qed

text \<open>
  A store with two records and a two-element heap on \<open>hits\<close> whose second element has the
  larger key, used to instantiate the theorems below.
\<close>

definition store2 :: store where
  "store2 = (\<lambda>_. PlayerRecord_init None 0 0 0)
              (0 := PlayerRecord_init (Some ''P'') 1 1 0,
               1 := PlayerRecord_init (Some ''Q'') 1 2 0)"

definition heap2 :: Heap where
  "heap2 = \<lparr>heap = [0, 1], mapping = [Some ''P'' \<mapsto> 0, Some ''Q'' \<mapsto> 1], sorting_key = Hits\<rparr>"

text \<open>
  A valid two-element heap on \<open>hits\<close> over \<open>store2\<close> with a consistent mapping: \<open>Q\<close>
  (2 hits) at the root, \<open>P\<close> (1 hit) below it.
\<close>

definition heap2_valid :: Heap where
  "heap2_valid =
     \<lparr>heap = [1, 0], mapping = [Some ''Q'' \<mapsto> 0, Some ''P'' \<mapsto> 1], sorting_key = Hits\<rparr>"

lemmas eval_defs =
  world_init_def Problem_init_def Heap_init_def new_at_bat_def current_best_def
  current_stats_def heap_named_def insert_heap_def heapify_up.simps heapify_down_def
  heapify_down_loop.simps pick_child_def extract_max_def getitem_def setitem_def pop_def
  norm_index_def swap_entries_def key_of_def PlayerRecord_init_def repair_up_def
  repair_down_def get_index_def validate_heap_def validate_loop.simps Let_def

lemma mapping_bounded_mono: "mapping_bounded N h \<Longrightarrow> N \<le> M \<Longrightarrow> mapping_bounded M h"
  by (fastforce simp: mapping_bounded_def)

lemma extract_max_unfold:
  assumes "heap h \<noteq> []"
  shows "extract_max st h =
         (case heapify_down st (h\<lparr>heap := butlast ((heap h)[0 := last (heap h)])\<rparr>) 0 of
            Inl e \<Rightarrow> Inl e
          | Inr h' \<Rightarrow> Inr (Some (hd (heap h)), h'))"
proof -
  let ?xs = "heap h"
  let ?n = "length ?xs"
  have n: "0 < ?n" using assms by simp
  have g0: "getitem ?xs 0 = Inr (hd ?xs)"
    using n getitem_nat[of 0 ?xs] by (simp add: hd_conv_nth assms)
  have gl: "getitem ?xs (int ?n - 1) = Inr (last ?xs)"
    using n getitem_nat[of "int ?n - 1" ?xs] assms
    by (simp add: last_conv_nth nat_diff_distrib')
  have s0: "setitem ?xs 0 (last ?xs) = Inr (?xs[0 := last ?xs])"
    using n setitem_nat[of 0 ?xs] by simp
  let ?xs1 = "?xs[0 := last ?xs]"
  have s1: "setitem ?xs1 (int (length ?xs1) - 1) (hd ?xs) = Inr (?xs1[?n - 1 := hd ?xs])"
    using n setitem_nat[of "int ?n - 1" ?xs1] by (simp add: nat_diff_distrib')
  let ?xs2 = "?xs1[?n - 1 := hd ?xs]"
  have ne2: "?xs2 \<noteq> []" using assms by simp
  have p: "pop ?xs2 (int (length ?xs2) - 1) = Inr (hd ?xs, butlast ?xs1)"
    using pop_last[OF ne2] n by (simp add: last_conv_nth butlast_list_update)
  have a: "\<not> length (heap h) < 1" using n by simp
  show ?thesis
    unfolding extract_max_def by (simp only: a if_False g0 gl s0 s1 p sum.case prod.case)
qed

lemma mset_extract_rest:
  assumes "xs \<noteq> []"
  shows "add_mset (hd xs) (mset (butlast (xs[0 := last xs]))) = mset xs"
proof (cases xs)
  case Nil
  then show ?thesis using assms by simp
next
  case (Cons x ys)
  show ?thesis
  proof (cases ys rule: rev_cases)
    case Nil
    then show ?thesis using Cons by simp
  next
    case (snoc zs z)
    then show ?thesis using Cons by simp
  qed
qed

lemma extract_max_kept:
  assumes "heap h \<noteq> []" "length (heap h) \<le> N"
  shows "\<exists>h'. extract_max st h = Inr (Some (hd (heap h)), h')
             \<and> mset (heap h) = add_mset (hd (heap h)) (mset (heap h'))
             \<and> maps_kept N h h'"
proof -
  define h0 where "h0 = h\<lparr>heap := butlast ((heap h)[0 := last (heap h)])\<rparr>"
  have m0: "heap h0 = butlast ((heap h)[0 := last (heap h)])" by (simp add: h0_def)
  have k0: "maps_kept N h h0"
    by (simp add: h0_def maps_kept_def mapping_bounded_def)
  have "length (heap h0) \<le> N" using assms(2) by (simp add: m0)
  from heapify_down_kept[OF order_refl this, of st]
  obtain h' where h': "heapify_down st h0 0 = Inr h'"
      "mset (heap h') = mset (heap h0)" "maps_kept N h0 h'"
    by blast
  have k: "maps_kept N h h'" using maps_kept_trans[OF k0 h'(3)] .
  have m: "mset (heap h) = add_mset (hd (heap h)) (mset (heap h'))"
    unfolding h'(2) m0 by (rule mset_extract_rest[OF assms(1), symmetric])
  have e: "extract_max st h = Inr (Some (hd (heap h)), h')"
    unfolding extract_max_unfold[OF assms(1)] h0_def[symmetric] h'(1) by simp
  from e m k show ?thesis by blast
qed

lemma extract_max_empty: "heap h = [] \<Longrightarrow> extract_max st h = Inr (None, h)"
  by (simp add: extract_max_def)

lemma insert_heap_kept:
  assumes "length (heap h) < N"
  shows "\<exists>h'. insert_heap st h e = Inr h'
             \<and> mset (heap h') = add_mset e (mset (heap h))
             \<and> maps_kept N h h' \<and> player (st e) \<in> dom (mapping h')"
proof -
  let ?h0 = "h\<lparr>heap := heap h @ [e],
               mapping := (mapping h)(player (st e) \<mapsto> int (length (heap h @ [e])) - 1)\<rparr>"
  have "0 \<le> int (length (heap ?h0)) - 1" "int (length (heap ?h0)) - 1 < int (length (heap ?h0))"
    "length (heap ?h0) \<le> N"
    using assms by auto
  from heapify_up_kept[OF this, of st]
  obtain h' where h': "heapify_up st ?h0 (int (length (heap ?h0)) - 1) = Inr h'"
      "mset (heap h') = mset (heap ?h0)" "maps_kept N ?h0 h'"
    by blast
  have k0: "maps_kept N h ?h0"
    using assms by (auto simp: maps_kept_def mapping_bounded_def)
  have "player (st e) \<in> dom (mapping h')"
    using h'(3) by (auto simp: maps_kept_def)
  moreover have "insert_heap st h e = Inr h'"
    using h'(1) by (simp add: insert_heap_def Let_def)
  ultimately show ?thesis
    using h'(2) maps_kept_trans[OF k0 h'(3)] by simp
qed

lemma extract_loop_kept:
  "n \<le> length (heap h) \<Longrightarrow> length (heap h) \<le> N \<Longrightarrow>
   \<exists>out h'. extract_loop st n h acc = Inr (acc @ map Some out, h')
      \<and> length out = n \<and> mset (heap h) = mset out + mset (heap h') \<and> maps_kept N h h'"
proof (induction n arbitrary: h acc)
  case 0
  have "extract_loop st 0 h acc = Inr (acc @ map Some [], h)" by simp
  then show ?case by (intro exI[of _ "[]"] exI[of _ h]) (simp add: maps_kept_refl)
next
  case (Suc n)
  have ne: "heap h \<noteq> []" using Suc.prems(1) by auto
  from extract_max_kept[OF ne Suc.prems(2), of st]
  obtain h1 where h1: "extract_max st h = Inr (Some (hd (heap h)), h1)"
      "mset (heap h) = add_mset (hd (heap h)) (mset (heap h1))" "maps_kept N h h1"
    by blast
  have len1: "Suc (length (heap h1)) = length (heap h)"
    using arg_cong[OF h1(2), of size] by simp
  then have "n \<le> length (heap h1)" "length (heap h1) \<le> N"
    using Suc.prems by auto
  from Suc.IH[OF this, of "acc @ [Some (hd (heap h))]"]
  obtain out h' where o: "extract_loop st n h1 (acc @ [Some (hd (heap h))])
        = Inr ((acc @ [Some (hd (heap h))]) @ map Some out, h')"
      "length out = n" "mset (heap h1) = mset out + mset (heap h')" "maps_kept N h1 h'"
    by blast
  have "extract_loop st (Suc n) h acc = Inr (acc @ map Some (hd (heap h) # out), h')"
    using h1(1) o(1) by simp
  moreover have "length (hd (heap h) # out) = Suc n" using o(2) by simp
  moreover have "mset (heap h) = mset (hd (heap h) # out) + mset (heap h')"
    using h1(2) o(3) by simp
  moreover note maps_kept_trans[OF h1(3) o(4)]
  ultimately show ?case by (intro exI[of _ "hd (heap h) # out"] exI[of _ h']) simp
qed

lemma insert_loop_kept:
  "length (heap h) + length out \<le> N \<Longrightarrow>
   \<exists>h'. insert_loop st (map Some out) h = Inr h'
      \<and> mset (heap h') = mset (heap h) + mset out \<and> maps_kept N h h'
      \<and> (\<forall>e \<in> set out. player (st e) \<in> dom (mapping h'))"
proof (induction out arbitrary: h)
  case Nil
  then show ?case by (simp add: maps_kept_refl)
next
  case (Cons e out)
  have "length (heap h) < N" using Cons.prems by simp
  from insert_heap_kept[OF this, of st e]
  obtain h1 where h1: "insert_heap st h e = Inr h1"
      "mset (heap h1) = add_mset e (mset (heap h))" "maps_kept N h h1"
      "player (st e) \<in> dom (mapping h1)"
    by blast
  have "length (heap h1) = Suc (length (heap h))"
    using arg_cong[OF h1(2), of size] by simp
  then have "length (heap h1) + length out \<le> N" using Cons.prems by simp
  from Cons.IH[OF this]
  obtain h' where h': "insert_loop st (map Some out) h1 = Inr h'"
      "mset (heap h') = mset (heap h1) + mset out" "maps_kept N h1 h'"
      "\<forall>e \<in> set out. player (st e) \<in> dom (mapping h')"
    by blast
  have "player (st e) \<in> dom (mapping h')"
    using h1(4) h'(3) by (auto simp: maps_kept_def)
  moreover have "insert_loop st (map Some (e # out)) h = Inr h'"
    using h1(1) h'(1) by simp
  moreover have "mset (heap h') = mset (heap h) + mset (e # out)"
    using h1(2) h'(2) by simp
  moreover note maps_kept_trans[OF h1(3) h'(3)] h'(4)
  ultimately show ?case by (intro exI[of _ h']) simp
qed

lemma current_best_kept:
  assumes "heap_named s = Some a"
  shows "\<exists>out h'. current_best w s k =
            Inr (Some (map Some out), w\<lparr>problem := set_heap (problem w) a h'\<rparr>)
         \<and> length out = nat (min k (int (length (heap (the_heap (problem w) a)))))
         \<and> mset out \<subseteq># mset (heap (the_heap (problem w) a))
         \<and> mset (heap h') = mset (heap (the_heap (problem w) a))
         \<and> maps_kept (length (heap (the_heap (problem w) a))) (the_heap (problem w) a) h'"
proof -
  let ?h = "the_heap (problem w) a"
  let ?N = "length (heap ?h)"
  let ?n = "nat (min k (int ?N))"
  have "?n \<le> ?N" by simp
  from extract_loop_kept[OF this le_refl, of "objects w" "[]"]
  obtain out h1 where o: "extract_loop (objects w) ?n ?h [] = Inr (map Some out, h1)"
      "length out = ?n" "mset (heap ?h) = mset out + mset (heap h1)" "maps_kept ?N ?h h1"
    by auto
  have "length (heap h1) + length out = ?N"
    using arg_cong[OF o(3), of size] by simp
  then have "length (heap h1) + length out \<le> ?N" by simp
  from insert_loop_kept[OF this, of "objects w"]
  obtain h' where h': "insert_loop (objects w) (map Some out) h1 = Inr h'"
      "mset (heap h') = mset (heap h1) + mset out" "maps_kept ?N h1 h'"
    by blast
  have "current_best w s k = Inr (Some (map Some out), w\<lparr>problem := set_heap (problem w) a h'\<rparr>)"
    using assms o(1) h'(1) by (simp add: current_best_def Let_def)
  moreover have "mset out \<subseteq># mset (heap ?h)" using o(3) by simp
  moreover have "mset (heap h') = mset (heap ?h)" using o(3) h'(2) by simp
  moreover note o(2) maps_kept_trans[OF o(4) h'(3)]
  ultimately show ?thesis by (intro exI[of _ out] exI[of _ h']) simp
qed

text \<open>
  The states of the tracker between calls: those reached from the new tracker by calls
  of \<open>new_at_bat\<close> and \<open>current_best\<close> that return (\<open>current_stats\<close> changes nothing).
\<close>

inductive reachable :: "world \<Rightarrow> bool" where
  reachable_init: "reachable world_init"
| reachable_new_at_bat:
    "reachable w \<Longrightarrow> new_at_bat w p dh dr = Inr w' \<Longrightarrow> reachable w'"
| reachable_current_best:
    "reachable w \<Longrightarrow> current_best w s k = Inr (out, w') \<Longrightarrow> reachable w'"

text \<open>
  What holds of one heap of a tracker with \<open>n\<close> records and record map \<open>m\<close>: its array
  is a permutation of the \<open>n\<close> references, and its mapping has an in-range index for
  every tracked player.
\<close>

definition heap_tracks :: "nat \<Rightarrow> (string \<rightharpoonup> ref) \<Rightarrow> stat \<Rightarrow> Heap \<Rightarrow> bool" where
  "heap_tracks n m a h \<longleftrightarrow>
     mset (heap h) = mset [0..<n] \<and> sorting_key h = a \<and> mapping_bounded n h \<and>
     (\<forall>p. m p \<noteq> None \<longrightarrow> Some p \<in> dom (mapping h))"

definition records_ok :: "world \<Rightarrow> bool" where
  "records_ok w \<longleftrightarrow>
     (\<forall>p r. player_record_mapping (problem w) p = Some r \<longrightarrow>
        r < fresh w \<and> player (objects w r) = Some p \<and> 1 \<le> ab (objects w r)) \<and>
     (\<forall>r < fresh w. \<exists>p. player_record_mapping (problem w) p = Some r)"

definition tracker_inv :: "world \<Rightarrow> bool" where
  "tracker_inv w \<longleftrightarrow>
     records_ok w \<and>
     (\<forall>a. heap_tracks (fresh w) (player_record_mapping (problem w)) a (the_heap (problem w) a))"

lemma heap_tracks_length:
  assumes "heap_tracks n m a h"
  shows "length (heap h) = n"
proof -
  have "mset (heap h) = mset [0..<n]" using assms unfolding heap_tracks_def by (rule conjunct1)
  then have "length (heap h) = length [0..<n]" by (rule mset_eq_length)
  then show ?thesis by simp
qed

lemma heap_tracks_kept:
  assumes "heap_tracks n m a h" "mset (heap h') = mset (heap h)" "maps_kept n h h'"
  shows "heap_tracks n m a h'"
  using assms unfolding heap_tracks_def maps_kept_def by (simp del: mset_upt) blast

lemma repair_up_tracks:
  assumes "heap_tracks n m a h" "m p = Some r" "player (st r) = Some p"
  shows "\<exists>h'. repair_up st h r = Inr h' \<and> heap_tracks n m a h'"
proof -
  have len: "length (heap h) = n" using assms(1) by (rule heap_tracks_length)
  obtain i where i: "mapping h (Some p) = Some i"
    using assms(1,2) by (auto simp: heap_tracks_def)
  then have rng: "0 \<le> i" "i < int (length (heap h))"
    using assms(1) len by (auto simp: heap_tracks_def mapping_bounded_def)
  from heapify_up_kept[OF rng, of n st] len
  obtain h' where h': "heapify_up st h i = Inr h'" "mset (heap h') = mset (heap h)"
      "maps_kept n h h'" by auto
  have "repair_up st h r = Inr h'"
    using i h'(1) assms(3) by (simp add: repair_up_def get_index_def)
  then show ?thesis using heap_tracks_kept[OF assms(1) h'(2,3)] by blast
qed

lemma repair_down_tracks:
  assumes "heap_tracks n m a h" "m p = Some r" "player (st r) = Some p"
  shows "\<exists>h'. repair_down st h r = Inr h' \<and> heap_tracks n m a h'"
proof -
  have len: "length (heap h) = n" using assms(1) by (rule heap_tracks_length)
  obtain i where i: "mapping h (Some p) = Some i"
    using assms(1,2) by (auto simp: heap_tracks_def)
  then have rng: "0 \<le> i"
    using assms(1) by (auto simp: heap_tracks_def mapping_bounded_def)
  from heapify_down_kept[OF rng, of h n st] len
  obtain h' where h': "heapify_down st h i = Inr h'" "mset (heap h') = mset (heap h)"
      "maps_kept n h h'" by auto
  have "repair_down st h r = Inr h'"
    using i h'(1) assms(3) by (simp add: repair_down_def get_index_def)
  then show ?thesis using heap_tracks_kept[OF assms(1) h'(2,3)] by blast
qed

lemma insert_heap_tracks:
  assumes "heap_tracks n m a h" "player (st n) = Some p"
  shows "\<exists>h'. insert_heap st h n = Inr h' \<and> heap_tracks (Suc n) (m(p \<mapsto> n)) a h'"
proof -
  have len: "length (heap h) = n" using assms(1) by (rule heap_tracks_length)
  then have "length (heap h) < Suc n" by simp
  from insert_heap_kept[OF this, of st n]
  obtain h' where h': "insert_heap st h n = Inr h'"
      "mset (heap h') = add_mset n (mset (heap h))" "maps_kept (Suc n) h h'"
      "player (st n) \<in> dom (mapping h')" by blast
  have b: "mapping_bounded (Suc n) h"
    using assms(1) mapping_bounded_mono[of n h "Suc n"] by (simp add: heap_tracks_def)
  have "heap_tracks (Suc n) (m(p \<mapsto> n)) a h'"
    unfolding heap_tracks_def
  proof (intro conjI allI impI)
    show "mset (heap h') = mset [0..<Suc n]"
      using h'(2) assms(1) by (simp add: heap_tracks_def)
    show "sorting_key h' = a" using h'(3) assms(1) by (simp add: heap_tracks_def maps_kept_def)
    show "mapping_bounded (Suc n) h'" using h'(3) b by (simp add: maps_kept_def)
    fix q assume q: "(m(p \<mapsto> n)) q \<noteq> None"
    show "Some q \<in> dom (mapping h')"
    proof (cases "q = p")
      case True
      then show ?thesis using h'(4) assms(2) by simp
    next
      case False
      then have "m q \<noteq> None" using q by simp
      then have "Some q \<in> dom (mapping h)" using assms(1) unfolding heap_tracks_def by blast
      moreover have "dom (mapping h) \<subseteq> dom (mapping h')"
        using h'(3) unfolding maps_kept_def by blast
      ultimately show ?thesis by blast
    qed
  qed
  then show ?thesis using h'(1) by blast
qed

lemma the_heap_set_heap:
  "the_heap (set_heap P a h) b = (if a = b then h else the_heap P b)"
  by (cases a; cases b) simp_all

lemma set_heap_record_map [simp]:
  "player_record_mapping (set_heap P a h) = player_record_mapping P"
  by (cases a) simp_all

lemma new_at_bat_unseen:
  assumes inv: "tracker_inv w" and unseen: "player_record_mapping (problem w) p = None"
  shows "\<exists>w'. new_at_bat w p dh dr = Inr w' \<and> tracker_inv w'
           \<and> objects w' = (objects w)(fresh w := PlayerRecord_init (Some p) 1 dh dr)
           \<and> fresh w' = Suc (fresh w)
           \<and> player_record_mapping (problem w')
               = (player_record_mapping (problem w))(p \<mapsto> fresh w)
           \<and> stdout w' = stdout w"
proof -
  define n where "n = fresh w"
  define P where "P = problem w"
  define m where "m = player_record_mapping P"
  define st where "st = (objects w)(n := PlayerRecord_init (Some p) 1 dh dr)"
  have pl: "player (st n) = Some p" by (simp add: st_def PlayerRecord_init_def)
  have tr: "heap_tracks n m a (the_heap P a)" for a
    using inv by (simp add: tracker_inv_def n_def m_def P_def)
  from insert_heap_tracks[where st=st and p=p, OF tr[of Ab] pl] obtain abH where
    abH: "insert_heap st (abHeap P) n = Inr abH" "heap_tracks (Suc n) (m(p \<mapsto> n)) Ab abH"
    by auto
  from insert_heap_tracks[where st=st and p=p, OF tr[of Hits] pl] obtain hitsH where
    hitsH: "insert_heap st (hitsHeap P) n = Inr hitsH"
      "heap_tracks (Suc n) (m(p \<mapsto> n)) Hits hitsH"
    by auto
  from insert_heap_tracks[where st=st and p=p, OF tr[of Rbi] pl] obtain rbiH where
    rbiH: "insert_heap st (rbiHeap P) n = Inr rbiH"
      "heap_tracks (Suc n) (m(p \<mapsto> n)) Rbi rbiH"
    by auto
  from insert_heap_tracks[where st=st and p=p, OF tr[of Avg] pl] obtain avgH where
    avgH: "insert_heap st (avgHeap P) n = Inr avgH"
      "heap_tracks (Suc n) (m(p \<mapsto> n)) Avg avgH"
    by auto
  define w' where "w' = w\<lparr>objects := st, fresh := Suc n,
      problem := P\<lparr>player_record_mapping := m(p \<mapsto> n),
                   abHeap := abH, hitsHeap := hitsH, rbiHeap := rbiH, avgHeap := avgH\<rparr>\<rparr>"
  have run: "new_at_bat w p dh dr = Inr w'"
    using unseen abH(1) hitsH(1) rbiH(1) avgH(1)
    by (simp add: new_at_bat_def Let_def P_def[symmetric] n_def[symmetric] st_def[symmetric]
        m_def[symmetric] w'_def)
  have old: "records_ok w" using inv by (simp add: tracker_inv_def)
  have none: "m p = None" using unseen by (simp add: m_def P_def)
  have rec: "records_ok w'"
    unfolding records_ok_def
  proof (rule conjI; intro allI impI)
    fix q r assume qr: "player_record_mapping (problem w') q = Some r"
    show "r < fresh w' \<and> player (objects w' r) = Some q \<and> 1 \<le> ab (objects w' r)"
    proof (cases "q = p")
      case True
      then have "r = n" using qr by (simp add: w'_def)
      then show ?thesis using True by (simp add: w'_def st_def PlayerRecord_init_def)
    next
      case False
      then have "m q = Some r" using qr by (simp add: w'_def)
      then have "r < n \<and> player (objects w r) = Some q \<and> 1 \<le> ab (objects w r)"
        using old unfolding records_ok_def m_def P_def n_def by blast
      then show ?thesis by (simp add: w'_def st_def)
    qed
  next
    fix r assume "r < fresh w'"
    then have "r < n \<or> r = n" by (auto simp: w'_def)
    then show "\<exists>q. player_record_mapping (problem w') q = Some r"
    proof
      assume "r < n"
      then obtain q where q: "m q = Some r"
        using old unfolding records_ok_def m_def P_def n_def by blast
      then have "q \<noteq> p" using none by auto
      then show ?thesis using q by (auto simp: w'_def)
    next
      assume "r = n"
      then show ?thesis by (auto simp: w'_def)
    qed
  qed
  have hp: "heap_tracks (fresh w') (player_record_mapping (problem w')) a (the_heap (problem w') a)"
    for a
    using abH(2) hitsH(2) rbiH(2) avgH(2) by (cases a) (simp_all add: w'_def)
  have "tracker_inv w'" using rec hp by (simp add: tracker_inv_def)
  then show ?thesis
    using run by (simp add: w'_def st_def n_def m_def P_def)
qed

lemma new_at_bat_seen:
  assumes inv: "tracker_inv w" and seen: "player_record_mapping (problem w) p = Some r"
  shows "\<exists>w'. new_at_bat w p dh dr = Inr w' \<and> tracker_inv w'
           \<and> objects w' = (objects w)(r := (objects w r)
                 \<lparr>ab := ab (objects w r) + 1, hits := hits (objects w r) + dh,
                  rbi := rbi (objects w r) + dr,
                  avg := of_int (hits (objects w r) + dh) / of_int (ab (objects w r) + 1)\<rparr>)
           \<and> fresh w' = fresh w
           \<and> player_record_mapping (problem w') = player_record_mapping (problem w)
           \<and> stdout w' = stdout w"
proof -
  define n where "n = fresh w"
  define P where "P = problem w"
  define m where "m = player_record_mapping P"
  define r4 where "r4 = (objects w r)
                 \<lparr>ab := ab (objects w r) + 1, hits := hits (objects w r) + dh,
                  rbi := rbi (objects w r) + dr,
                  avg := of_int (hits (objects w r) + dh) / of_int (ab (objects w r) + 1)\<rparr>"
  define st where "st = (objects w)(r := r4)"
  have old: "records_ok w" using inv by (simp add: tracker_inv_def)
  have mr: "m p = Some r" using seen by (simp add: m_def P_def)
  have r: "r < n" "player (objects w r) = Some p" "1 \<le> ab (objects w r)"
    using old seen unfolding records_ok_def n_def by blast+
  have pl: "player (st r) = Some p" using r(2) by (simp add: st_def r4_def)
  have nz: "ab (objects w r) + 1 \<noteq> 0" using r(3) by simp
  have tr: "heap_tracks n m a (the_heap P a)" for a
    using inv by (simp add: tracker_inv_def n_def m_def P_def)
  from repair_up_tracks[where st=st and p=p and r=r, OF tr[of Ab] mr pl] obtain abH where
    abH: "repair_up st (abHeap P) r = Inr abH" "heap_tracks n m Ab abH" by auto
  from repair_up_tracks[where st=st and p=p and r=r, OF tr[of Hits] mr pl] obtain hitsH where
    hitsH: "repair_up st (hitsHeap P) r = Inr hitsH" "heap_tracks n m Hits hitsH" by auto
  from repair_up_tracks[where st=st and p=p and r=r, OF tr[of Rbi] mr pl] obtain rbiH where
    rbiH: "repair_up st (rbiHeap P) r = Inr rbiH" "heap_tracks n m Rbi rbiH" by auto
  have "\<exists>avgH. (if dh = 0 then repair_down st (avgHeap P) r else repair_up st (avgHeap P) r)
           = Inr avgH \<and> heap_tracks n m Avg avgH"
    using repair_up_tracks[where st=st and p=p and r=r, OF tr[of Avg] mr pl] repair_down_tracks[where st=st and p=p and r=r, OF tr[of Avg] mr pl]
    by (cases "dh = 0") auto
  then obtain avgH where
    avgH: "(if dh = 0 then repair_down st (avgHeap P) r else repair_up st (avgHeap P) r)
           = Inr avgH" "heap_tracks n m Avg avgH" by blast
  define w' where "w' = w\<lparr>objects := st,
      problem := P\<lparr>abHeap := abH, hitsHeap := hitsH, rbiHeap := rbiH, avgHeap := avgH\<rparr>\<rparr>"
  have unfold: "new_at_bat w p dh dr =
      (case repair_up st (abHeap P) r of Inl e \<Rightarrow> Inl e | Inr abH \<Rightarrow>
       (case repair_up st (hitsHeap P) r of Inl e \<Rightarrow> Inl e | Inr hitsH \<Rightarrow>
        (case repair_up st (rbiHeap P) r of Inl e \<Rightarrow> Inl e | Inr rbiH \<Rightarrow>
         (case (if dh = 0 then repair_down st (avgHeap P) r
                else repair_up st (avgHeap P) r) of
            Inl e \<Rightarrow> Inl e
          | Inr avgH \<Rightarrow>
              Inr (w\<lparr>objects := st,
                     problem := P\<lparr>abHeap := abH, hitsHeap := hitsH,
                                  rbiHeap := rbiH, avgHeap := avgH\<rparr>\<rparr>)))))"
    using mr nz
    by (simp add: new_at_bat_def Let_def P_def m_def st_def r4_def
             split del: if_split cong: sum.case_cong if_cong)
  have run: "new_at_bat w p dh dr = Inr w'"
    unfolding unfold abH(1) hitsH(1) rbiH(1) avgH(1) by (simp add: w'_def)
  have rec: "records_ok w'"
    unfolding records_ok_def
  proof (rule conjI; intro allI impI)
    fix q r' assume "player_record_mapping (problem w') q = Some r'"
    then have "player_record_mapping (problem w) q = Some r'" by (simp add: w'_def P_def)
    then have o: "r' < n" "player (objects w r') = Some q" "1 \<le> ab (objects w r')"
      using old unfolding records_ok_def n_def by blast+
    have "player (st r') = player (objects w r')" "ab (objects w r') \<le> ab (st r')"
      by (simp_all add: st_def r4_def)
    then show "r' < fresh w' \<and> player (objects w' r') = Some q \<and> 1 \<le> ab (objects w' r')"
      using o by (simp add: w'_def n_def)
  next
    fix r' assume "r' < fresh w'"
    then show "\<exists>q. player_record_mapping (problem w') q = Some r'"
      using old unfolding records_ok_def by (simp add: w'_def P_def)
  qed
  have hp: "heap_tracks (fresh w') (player_record_mapping (problem w')) a (the_heap (problem w') a)"
    for a
    using abH(2) hitsH(2) rbiH(2) avgH(2)
    by (cases a) (simp_all add: w'_def n_def m_def)
  have "tracker_inv w'" using rec hp by (simp add: tracker_inv_def)
  then show ?thesis
    using run by (simp add: w'_def st_def r4_def P_def)
qed

lemma current_best_inv:
  assumes inv: "tracker_inv w" and run: "current_best w s k = Inr (out, w')"
  shows "tracker_inv w'"
proof (cases "heap_named s")
  case None
  then have "w' = w\<lparr>stdout := stdout w @ [''not valid'']\<rparr>"
    using run by (simp add: current_best_def)
  then show ?thesis using inv by (simp add: tracker_inv_def records_ok_def)
next
  case (Some a)
  let ?h = "the_heap (problem w) a"
  have tr: "heap_tracks (fresh w) (player_record_mapping (problem w)) b (the_heap (problem w) b)"
    for b using inv by (simp add: tracker_inv_def)
  have len: "length (heap ?h) = fresh w" using tr[of a] by (rule heap_tracks_length)
  from current_best_kept[OF Some, of w k] run len
  obtain h' where h': "w' = w\<lparr>problem := set_heap (problem w) a h'\<rparr>"
      "mset (heap h') = mset (heap ?h)" "maps_kept (fresh w) ?h h'"
    by auto
  have "heap_tracks (fresh w) (player_record_mapping (problem w)) a h'"
    using heap_tracks_kept[OF tr[of a] h'(2,3)] .
  then have "heap_tracks (fresh w') (player_record_mapping (problem w')) b (the_heap (problem w') b)"
    for b using tr[of b] by (auto simp: h'(1) the_heap_set_heap)
  moreover have "records_ok w'"
    using inv by (simp add: tracker_inv_def records_ok_def h'(1))
  ultimately show ?thesis by (simp add: tracker_inv_def)
qed

lemma tracker_inv_init: "tracker_inv world_init"
proof -
  have "heap_tracks 0 Map.empty a (the_heap Problem_init a)" for a
    by (cases a) (simp_all add: heap_tracks_def mapping_bounded_def Problem_init_def Heap_init_def)
  then show ?thesis
    by (simp add: tracker_inv_def records_ok_def world_init_def)
       (simp add: Problem_init_def)
qed

lemma new_at_bat_total:
  assumes "tracker_inv w"
  shows "\<exists>w'. new_at_bat w p dh dr = Inr w' \<and> tracker_inv w'"
proof (cases "player_record_mapping (problem w) p")
  case None
  then show ?thesis using new_at_bat_unseen[OF assms None, of dh dr] by blast
next
  case (Some r)
  then show ?thesis using new_at_bat_seen[OF assms Some, of dh dr] by blast
qed

lemma reachable_inv: "reachable w \<Longrightarrow> tracker_inv w"
proof (induction rule: reachable.induct)
  case reachable_init
  show ?case by (rule tracker_inv_init)
next
  case (reachable_new_at_bat w p dh dr w')
  then show ?case using new_at_bat_total[of w p dh dr] by auto
next
  case (reachable_current_best w s k out w')
  then show ?case using current_best_inv by blast
qed

lemma new_at_bat_record_map:
  assumes "tracker_inv w" "new_at_bat w q dh dr = Inr w'"
    "player_record_mapping (problem w) p = Some r"
  shows "player_record_mapping (problem w') p = Some r"
proof (cases "player_record_mapping (problem w) q")
  case None
  then have "q \<noteq> p" using assms(3) by auto
  then show ?thesis
    using new_at_bat_unseen[OF assms(1) None, of dh dr] assms(2,3) by auto
next
  case (Some r')
  then show ?thesis
    using new_at_bat_seen[OF assms(1) Some, of dh dr] assms(2,3) by auto
qed

lemma current_best_record_map:
  assumes "current_best w s k = Inr (out, w')"
  shows "player_record_mapping (problem w') = player_record_mapping (problem w)
       \<and> objects w' = objects w \<and> fresh w' = fresh w"
proof (cases "heap_named s")
  case None
  then show ?thesis using assms by (auto simp: current_best_def)
next
  case (Some a)
  then show ?thesis using current_best_kept[OF Some, of w k] assms by auto
qed

lemma reachable_run:
  "reachable w \<Longrightarrow> run_operations w ops = Inr w' \<Longrightarrow> reachable w'"
proof (induction ops arbitrary: w)
  case Nil
  then show ?case by simp
next
  case (Cons x ops)
  from Cons.prems(2) obtain w1 where w1: "apply_operation w x = Inr w1"
      "run_operations w1 ops = Inr w'"
    by (auto split: sum.splits)
  have "reachable w1"
  proof (cases x)
    case (OpN p dh dr)
    then show ?thesis using w1(1) Cons.prems(1) reachable_new_at_bat by auto
  next
    case (OpCS p)
    then show ?thesis using w1(1) Cons.prems(1) by auto
  next
    case (OpCB s k)
    then show ?thesis
      using w1(1) Cons.prems(1) reachable_current_best[of w s k]
      by (auto split: sum.splits)
  qed
  then show ?case using Cons.IH w1(2) by blast
qed

text \<open>The state of a new tracker after a list of operations (the new tracker itself when
  one of them raises).\<close>

definition after :: "operation list \<Rightarrow> world" where
  "after ops = (case run_operations world_init ops of Inr w \<Rightarrow> w | Inl e \<Rightarrow> world_init)"

lemma reachable_after: "reachable (after ops)"
proof (cases "run_operations world_init ops")
  case (Inl e)
  then show ?thesis by (simp add: after_def reachable_init)
next
  case (Inr w)
  then show ?thesis using reachable_run[OF reachable_init Inr] by (simp add: after_def)
qed

lemma count_list_unique:
  "distinct xs \<Longrightarrow> r \<in> set xs \<Longrightarrow> (\<forall>x \<in> set xs. f x = y \<longleftrightarrow> x = r) \<Longrightarrow>
   count_list (map f xs) y = 1"
proof (induction xs)
  case Nil
  then show ?case by simp
next
  case (Cons x xs)
  show ?case
  proof (cases "x = r")
    case True
    then have "r \<notin> set xs" using Cons.prems(1) by simp
    then have "\<forall>z \<in> set xs. f z \<noteq> y" using Cons.prems(3) by auto
    then have "count_list (map f xs) y = 0" by (auto simp: count_list_0_iff)
    then show ?thesis using True Cons.prems(3) by simp
  next
    case False
    then have "f x \<noteq> y" using Cons.prems(3) by simp
    moreover have "count_list (map f xs) y = 1"
      using Cons.IH Cons.prems False by auto
    ultimately show ?thesis by simp
  qed
qed

lemma heap_tracks_once:
  assumes inv: "tracker_inv w" and seen: "player_record_mapping (problem w) p = Some r"
  shows "count_list (heap (the_heap (problem w) a)) r = 1
       \<and> count_list (map (\<lambda>x. player (objects w x)) (heap (the_heap (problem w) a))) (Some p) = 1"
proof -
  let ?xs = "heap (the_heap (problem w) a)"
  have ms: "mset ?xs = mset [0..<fresh w]"
    using inv unfolding tracker_inv_def heap_tracks_def by blast
  have d: "distinct ?xs" using ms by (metis distinct_upt mset_eq_imp_distinct_iff)
  have st: "set ?xs = {0..<fresh w}" using ms by (metis mset_eq_setD set_upt)
  have old: "records_ok w" using inv by (simp add: tracker_inv_def)
  have r: "r < fresh w" "player (objects w r) = Some p"
    using old seen unfolding records_ok_def by blast+
  have rin: "r \<in> set ?xs" using r(1) st by simp
  have u: "\<forall>x \<in> set ?xs. player (objects w x) = Some p \<longleftrightarrow> x = r"
  proof
    fix x assume "x \<in> set ?xs"
    then have "x < fresh w" using st by simp
    then obtain q where q: "player_record_mapping (problem w) q = Some x"
      using old unfolding records_ok_def by blast
    then have "player (objects w x) = Some q" using old unfolding records_ok_def by blast
    then show "player (objects w x) = Some p \<longleftrightarrow> x = r" using q seen r(2) by auto
  qed
  have "count_list (map (\<lambda>x. x) ?xs) r = 1"
    by (rule count_list_unique[OF d rin]) simp
  moreover have "count_list (map (\<lambda>x. player (objects w x)) ?xs) (Some p) = 1"
    by (rule count_list_unique[OF d rin u])
  ultimately show ?thesis by simp
qed






text \<open>
  The max-heap invariant of a heap array: the key at every index but the root is at most
  the key at its parent index \<open>(i - 1) div 2\<close>.
\<close>

definition kat :: "store \<Rightarrow> Heap \<Rightarrow> nat \<Rightarrow> rat" where
  "kat st h i = key_of st h (heap h ! i)"

definition heap_ordered :: "store \<Rightarrow> Heap \<Rightarrow> bool" where
  "heap_ordered st h \<longleftrightarrow>
     (\<forall>i \<in> {1..<length (heap h)}. kat st h i \<le> kat st h ((i - 1) div 2))"

text \<open>
  The invariant of the loop of \<open>heapify_down\<close>: every edge of the tree is in order but
  those below index \<open>p\<close>, and the children of \<open>p\<close> are in order with the parent of \<open>p\<close>.
\<close>

definition ordered_except :: "store \<Rightarrow> Heap \<Rightarrow> nat \<Rightarrow> bool" where
  "ordered_except st h p \<longleftrightarrow>
     (\<forall>i. 0 < i \<and> i < length (heap h) \<and> (i - 1) div 2 \<noteq> p \<longrightarrow>
          kat st h i \<le> kat st h ((i - 1) div 2))"

definition grand_ok :: "store \<Rightarrow> Heap \<Rightarrow> nat \<Rightarrow> bool" where
  "grand_ok st h p \<longleftrightarrow>
     (0 < p \<longrightarrow> (\<forall>i. 0 < i \<and> i < length (heap h) \<and> (i - 1) div 2 = p \<longrightarrow>
          kat st h i \<le> kat st h ((p - 1) div 2)))"

definition bigger_child :: "store \<Rightarrow> Heap \<Rightarrow> nat \<Rightarrow> nat \<Rightarrow> bool" where
  "bigger_child st h p c \<longleftrightarrow>
     c < length (heap h) \<and> 0 < c \<and> (c - 1) div 2 = p \<and>
     (\<forall>i. 0 < i \<and> i < length (heap h) \<and> (i - 1) div 2 = p \<longrightarrow> kat st h i \<le> kat st h c)"

lemma heap_ordered_iff:
  "heap_ordered st h \<longleftrightarrow>
     (\<forall>i. 0 < i \<and> i < length (heap h) \<longrightarrow> kat st h i \<le> kat st h ((i - 1) div 2))"
  unfolding heap_ordered_def by (auto simp: Suc_le_eq)

lemma child_index: "0 < i \<and> (i - 1) div 2 = p \<longleftrightarrow> i = 2 * p + 1 \<or> i = 2 * p + 2"
  for i p :: nat
  by auto

lemma bigger_childI:
  assumes "c < length (heap h)" "c = 2 * p + 1 \<or> c = 2 * p + 2"
    and "2 * p + 1 < length (heap h) \<Longrightarrow> kat st h (2 * p + 1) \<le> kat st h c"
    and "2 * p + 2 < length (heap h) \<Longrightarrow> kat st h (2 * p + 2) \<le> kat st h c"
  shows "bigger_child st h p c"
  unfolding bigger_child_def
proof (intro conjI allI impI)
  show "c < length (heap h)" by (rule assms(1))
  show "0 < c" using assms(2) by auto
  show "(c - 1) div 2 = p" using assms(2) by auto
next
  fix i assume i: "0 < i \<and> i < length (heap h) \<and> (i - 1) div 2 = p"
  then have "i = 2 * p + 1 \<or> i = 2 * p + 2" using child_index[of i p] by blast
  then show "kat st h i \<le> kat st h c" using i assms(3,4) by auto
qed

lemma pick_child_bigger:
  "\<exists>r. pick_child st h (int p) = Inr r
      \<and> (r = None \<longrightarrow> length (heap h) \<le> 2 * p + 1)
      \<and> (\<forall>c. r = Some c \<longrightarrow> 0 \<le> c \<and> bigger_child st h p (nat c))"
proof -
  let ?n = "length (heap h)"
  consider "?n \<le> 2 * p + 1" | "?n = 2 * p + 2" | "2 * p + 2 < ?n" by linarith
  then show ?thesis
  proof cases
    case 1
    then show ?thesis by (simp add: pick_child_def Let_def)
  next
    case 2
    then have "pick_child st h (int p) = Inr (Some (int p * 2 + 1))"
      by (simp add: pick_child_def Let_def)
    moreover have "nat (int p * 2 + 1) = 2 * p + 1" by linarith
    moreover have "bigger_child st h p (2 * p + 1)"
      using 2 by (intro bigger_childI) auto
    ultimately show ?thesis by simp
  next
    case 3
    have n1: "nat (int p * 2 + 1) = 2 * p + 1" by linarith
    have n2: "nat (int p * 2 + 2) = 2 * p + 2" by linarith
    have "0 \<le> int p * 2 + 1" "int p * 2 + 1 < int (length (heap h))" using 3 by auto
    from getitem_nat[OF this]
    have l: "getitem (heap h) (int p * 2 + 1) = Inr (heap h ! (2 * p + 1))"
      unfolding n1 .
    have "0 \<le> int p * 2 + 2" "int p * 2 + 2 < int (length (heap h))" using 3 by auto
    from getitem_nat[OF this]
    have r: "getitem (heap h) (int p * 2 + 2) = Inr (heap h ! (2 * p + 2))"
      unfolding n2 .
    show ?thesis
    proof (cases "kat st h (2 * p + 1) > kat st h (2 * p + 2)")
      case True
      then have "pick_child st h (int p) = Inr (Some (int p * 2 + 1))"
        using 3 l r by (simp add: pick_child_def Let_def kat_def)
      moreover have "bigger_child st h p (2 * p + 1)"
        using 3 True by (intro bigger_childI) auto
      ultimately show ?thesis using n1 by simp
    next
      case False
      then have "pick_child st h (int p) = Inr (Some (int p * 2 + 2))"
        using 3 l r by (simp add: pick_child_def Let_def kat_def)
      moreover have "bigger_child st h p (2 * p + 2)"
        using 3 False by (intro bigger_childI) auto
      ultimately show ?thesis using n2 by simp
    qed
  qed
qed

lemma kat_swap:
  assumes "P < length (heap h)" "C < length (heap h)" "P \<noteq> C"
    and "swap_entries st h (int P) (int C) = Inr h1"
  shows "length (heap h1) = length (heap h)"
    and "kat st h1 P = kat st h C"
    and "kat st h1 C = kat st h P"
    and "\<And>i. i \<noteq> P \<Longrightarrow> i \<noteq> C \<Longrightarrow> kat st h1 i = kat st h i"
proof -
  have "0 \<le> int P" "int P < int (length (heap h))" "0 \<le> int C" "int C < int (length (heap h))"
    using assms(1,2) by auto
  from swap_entries_nat[OF this, of st] assms(4)
  have h1: "h1 = h\<lparr>heap := (heap h)[P := heap h ! C, C := heap h ! P],
                mapping := (mapping h)(player (st (heap h ! P)) \<mapsto> int C,
                                       player (st (heap h ! C)) \<mapsto> int P)\<rparr>"
    by simp
  show "length (heap h1) = length (heap h)" by (simp add: h1)
  show "kat st h1 P = kat st h C"
    using assms(1,2,3) by (simp add: h1 kat_def key_of_def)
  show "kat st h1 C = kat st h P"
    using assms(1,2,3) by (simp add: h1 kat_def key_of_def)
  show "\<And>i. i \<noteq> P \<Longrightarrow> i \<noteq> C \<Longrightarrow> kat st h1 i = kat st h i"
    by (simp add: h1 kat_def key_of_def)
qed

lemma heapify_down_loop_ordered:
  assumes "bigger_child st h P C" "ordered_except st h P" "grand_ok st h P"
  shows "\<exists>h'. heapify_down_loop st h (int P) (int C) = Inr h' \<and> heap_ordered st h'"
  using assms
proof (induction "length (heap h) - C" arbitrary: h P C rule: less_induct)
  case less
  let ?n = "length (heap h)"
  have C: "C < ?n" "0 < C" "(C - 1) div 2 = P"
    using less.prems(1) unfolding bigger_child_def by auto
  have big: "kat st h i \<le> kat st h C" if "0 < i" "i < ?n" "(i - 1) div 2 = P" for i
    using less.prems(1) that unfolding bigger_child_def by blast
  have exc: "kat st h i \<le> kat st h ((i - 1) div 2)"
    if "0 < i" "i < ?n" "(i - 1) div 2 \<noteq> P" for i
    using less.prems(2) that unfolding ordered_except_def by blast
  have PC: "P < C" using C(2,3) by auto
  have Pn: "P < ?n" using PC C(1) by simp
  have gp: "getitem (heap h) (int P) = Inr (heap h ! P)"
    using Pn getitem_nat[of "int P" "heap h"] by simp
  have gc: "getitem (heap h) (int C) = Inr (heap h ! C)"
    using C(1) getitem_nat[of "int C" "heap h"] by simp
  show ?case
  proof (cases "kat st h P < kat st h C")
    case False
    have run: "heapify_down_loop st h (int P) (int C) = Inr h"
      using False gp gc by (simp add: heapify_down_loop.simps[of st h "int P" "int C"] kat_def)
    have "heap_ordered st h"
      unfolding heap_ordered_iff
    proof (intro allI impI)
      fix i assume i: "0 < i \<and> i < ?n"
      show "kat st h i \<le> kat st h ((i - 1) div 2)"
      proof (cases "(i - 1) div 2 = P")
        case True
        then have "kat st h i \<le> kat st h C" using big i by blast
        then show ?thesis using False True by simp
      next
        case False
        then show ?thesis using exc i by blast
      qed
    qed
    then show ?thesis using run by blast
  next
    case lt: True
    have "0 \<le> int P" "int P < int ?n" "0 \<le> int C" "int C < int ?n"
      using Pn C(1) by auto
    from swap_entries_nat[OF this, of st]
    obtain h1 where h1: "swap_entries st h (int P) (int C) = Inr h1" by blast
    have PneC: "P \<noteq> C" using PC by simp
    note k = kat_swap[OF Pn C(1) PneC h1]
    have A: "kat st h1 i \<le> kat st h1 ((i - 1) div 2)"
      if i: "0 < i" "i < ?n" "(i - 1) div 2 \<noteq> C" for i
    proof (cases "(i - 1) div 2 = P")
      case True
      show ?thesis
      proof (cases "i = C")
        case True
        then show ?thesis using lt C(3) k(2,3) by simp
      next
        case False
        have "i \<noteq> P" using True i(1) by auto
        then have "kat st h1 i = kat st h i" using False k(4) by blast
        then show ?thesis using big[OF i(1,2) True] True k(2) by simp
      qed
    next
      case jP: False
      show ?thesis
      proof (cases "i = P")
        case True
        then have P0: "0 < P" using i(1) by simp
        have "(P - 1) div 2 < P" using P0 by auto
        then have "(P - 1) div 2 \<noteq> P" "(P - 1) div 2 \<noteq> C" using PC by auto
        then have "kat st h1 ((P - 1) div 2) = kat st h ((P - 1) div 2)" using k(4) by blast
        moreover have "kat st h C \<le> kat st h ((P - 1) div 2)"
          using less.prems(3) P0 C unfolding grand_ok_def by blast
        ultimately show ?thesis using True k(2) by simp
      next
        case False
        have "i \<noteq> C" using jP C(3) by auto
        then have "kat st h1 i = kat st h i" using False k(4) by blast
        moreover have "kat st h1 ((i - 1) div 2) = kat st h ((i - 1) div 2)"
          using jP i(3) k(4) by blast
        ultimately show ?thesis using exc[OF i(1,2) jP] by simp
      qed
    qed
    have B: "kat st h1 i \<le> kat st h1 ((C - 1) div 2)"
      if i: "0 < i" "i < ?n" "(i - 1) div 2 = C" for i
    proof -
      have "C < i" using i(1,3) by auto
      then have "i \<noteq> P" "i \<noteq> C" using PC by auto
      then have "kat st h1 i = kat st h i" using k(4) by blast
      moreover have "kat st h i \<le> kat st h C"
        using exc[OF i(1,2)] i(3) PneC by auto
      ultimately show ?thesis using C(3) k(2) by simp
    qed
    from pick_child_bigger[of st h1 C]
    obtain r where r: "pick_child st h1 (int C) = Inr r"
        "r = None \<longrightarrow> length (heap h1) \<le> 2 * C + 1"
        "\<forall>c. r = Some c \<longrightarrow> 0 \<le> c \<and> bigger_child st h1 C (nat c)"
      by blast
    show ?thesis
    proof (cases r)
      case None
      have run: "heapify_down_loop st h (int P) (int C) = Inr h1"
        using lt gp gc C(1) h1 r(1) None
        by (simp add: heapify_down_loop.simps[of st h "int P" "int C"] kat_def)
      have "heap_ordered st h1"
        unfolding heap_ordered_iff
      proof (intro allI impI)
        fix i assume i: "0 < i \<and> i < length (heap h1)"
        then have "(i - 1) div 2 \<noteq> C" using r(2) None by auto
        then show "kat st h1 i \<le> kat st h1 ((i - 1) div 2)" using A i k(1) by simp
      qed
      then show ?thesis using run by blast
    next
      case (Some c')
      then have c': "0 \<le> c'" "bigger_child st h1 C (nat c')" using r(3) by auto
      have cl: "nat c' < length (heap h1)" "C < nat c'"
        using c'(2) unfolding bigger_child_def by auto
      have m: "length (heap h1) - nat c' < ?n - C" using cl k(1) by simp
      have oe: "ordered_except st h1 C"
        unfolding ordered_except_def using A k(1) by simp
      have go: "grand_ok st h1 C"
        unfolding grand_ok_def using B k(1) by simp
      from less.hyps[OF m c'(2) oe go]
      obtain h' where h': "heapify_down_loop st h1 (int C) (int (nat c')) = Inr h'"
          "heap_ordered st h'" by blast
      have "heapify_down_loop st h (int P) (int C) = Inr h'"
        using lt gp gc C(1) h1 r(1) Some h'(1) c'(1)
        by (simp add: heapify_down_loop.simps[of st h "int P" "int C"] kat_def)
      then show ?thesis using h'(2) by blast
    qed
  qed
qed

lemma heapify_down_root_ordered:
  assumes "ordered_except st h 0"
  shows "\<exists>h'. heapify_down st h 0 = Inr h' \<and> heap_ordered st h'"
proof -
  from pick_child_bigger[of st h 0]
  obtain r where r: "pick_child st h 0 = Inr r"
      "r = None \<longrightarrow> length (heap h) \<le> 1"
      "\<forall>c. r = Some c \<longrightarrow> 0 \<le> c \<and> bigger_child st h 0 (nat c)"
    by auto
  show ?thesis
  proof (cases r)
    case None
    then have "heap_ordered st h" using r(2) by (auto simp: heap_ordered_iff)
    then show ?thesis using r(1) None by (simp add: heapify_down_def)
  next
    case (Some c)
    then have c: "0 \<le> c" "bigger_child st h 0 (nat c)" using r(3) by auto
    have "grand_ok st h 0" by (simp add: grand_ok_def)
    from heapify_down_loop_ordered[OF c(2) assms this] c(1)
    obtain h' where "heapify_down_loop st h 0 c = Inr h'" "heap_ordered st h'" by auto
    then show ?thesis using r(1) Some by (simp add: heapify_down_def)
  qed
qed

lemma root_max:
  assumes "heap_ordered st h"
  shows "i < length (heap h) \<Longrightarrow> kat st h i \<le> kat st h 0"
proof (induction i rule: less_induct)
  case (less i)
  show ?case
  proof (cases "i = 0")
    case True
    then show ?thesis by simp
  next
    case False
    then have i: "0 < i \<and> i < length (heap h)" using less.prems by simp
    have p: "(i - 1) div 2 < i" using False by auto
    have "kat st h i \<le> kat st h ((i - 1) div 2)"
      using assms i unfolding heap_ordered_iff by blast
    moreover have "kat st h ((i - 1) div 2) \<le> kat st h 0"
      using less.IH[OF p] p less.prems by simp
    ultimately show ?thesis by simp
  qed
qed

lemma root_max_key:
  assumes "heap_ordered st h" "y \<in> set (heap h)"
  shows "key_of st h y \<le> key_of st h (hd (heap h))"
proof -
  obtain i where i: "i < length (heap h)" "heap h ! i = y"
    using assms(2) by (auto simp: in_set_conv_nth)
  then have ne: "heap h \<noteq> []" by auto
  have "kat st h i \<le> kat st h 0" using root_max[OF assms(1) i(1)] .
  then show ?thesis using i(2) ne by (simp add: kat_def hd_conv_nth)
qed

lemma extract_max_ordered:
  assumes ne: "heap h \<noteq> []" and ord: "heap_ordered st h"
  shows "\<exists>h'. extract_max st h = Inr (Some (hd (heap h)), h') \<and> heap_ordered st h'
           \<and> mset (heap h) = add_mset (hd (heap h)) (mset (heap h'))
           \<and> sorting_key h' = sorting_key h"
proof -
  define h0 where "h0 = h\<lparr>heap := butlast ((heap h)[0 := last (heap h)])\<rparr>"
  have len0: "length (heap h0) = length (heap h) - 1" by (simp add: h0_def)
  have same: "kat st h0 i = kat st h i" if "0 < i" "i < length (heap h0)" for i
    using that by (simp add: h0_def kat_def key_of_def nth_butlast)
  have "ordered_except st h0 0"
    unfolding ordered_except_def
  proof (intro allI impI)
    fix i assume i: "0 < i \<and> i < length (heap h0) \<and> (i - 1) div 2 \<noteq> 0"
    then have j: "0 < (i - 1) div 2" "(i - 1) div 2 < length (heap h0)" by auto
    have "0 < i \<and> i < length (heap h)" using i len0 by linarith
    then have "kat st h i \<le> kat st h ((i - 1) div 2)"
      using ord unfolding heap_ordered_iff by blast
    then show "kat st h0 i \<le> kat st h0 ((i - 1) div 2)"
      using same[of i] same[OF j] i by simp
  qed
  from heapify_down_root_ordered[OF this]
  obtain h' where h': "heapify_down st h0 0 = Inr h'" "heap_ordered st h'" by blast
  have run: "extract_max st h = Inr (Some (hd (heap h)), h')"
    unfolding extract_max_unfold[OF ne] h0_def[symmetric] h'(1) by simp
  from extract_max_kept[OF ne order_refl, of st]
  obtain h2 where h2: "extract_max st h = Inr (Some (hd (heap h)), h2)"
      "mset (heap h) = add_mset (hd (heap h)) (mset (heap h2))"
      "maps_kept (length (heap h)) h h2" by blast
  have "h2 = h'" using run h2(1) by simp
  then show ?thesis using run h'(2) h2(2,3) by (auto simp: maps_kept_def)
qed

lemma extract_loop_sorted:
  "heap_ordered st h \<Longrightarrow> n \<le> length (heap h) \<Longrightarrow>
   \<exists>out h'. extract_loop st n h acc = Inr (acc @ map Some out, h')
      \<and> length out = n \<and> mset (heap h) = mset out + mset (heap h')
      \<and> heap_ordered st h' \<and> sorting_key h' = sorting_key h
      \<and> sorted_wrt (\<lambda>a b. key_of st h b \<le> key_of st h a) out
      \<and> (\<forall>x \<in> set out. \<forall>y \<in> set (heap h'). key_of st h y \<le> key_of st h x)"
proof (induction n arbitrary: h acc)
  case 0
  show ?case using "0.prems"(1) by (intro exI[of _ "[]"] exI[of _ h]) simp
next
  case (Suc n)
  have ne: "heap h \<noteq> []" using Suc.prems(2) by auto
  let ?x = "hd (heap h)"
  from extract_max_ordered[OF ne Suc.prems(1)]
  obtain h1 where h1: "extract_max st h = Inr (Some ?x, h1)" "heap_ordered st h1"
      "mset (heap h) = add_mset ?x (mset (heap h1))" "sorting_key h1 = sorting_key h"
    by blast
  have keq: "key_of st h1 = key_of st h" using h1(4) by (auto simp: key_of_def)
  have "size (mset (heap h)) = size (add_mset ?x (mset (heap h1)))"
    using h1(3) by simp
  then have "Suc (length (heap h1)) = length (heap h)" by simp
  then have "n \<le> length (heap h1)" using Suc.prems(2) by simp
  from Suc.IH[OF h1(2) this, of "acc @ [Some ?x]"]
  obtain out h' where o: "extract_loop st n h1 (acc @ [Some ?x])
        = Inr ((acc @ [Some ?x]) @ map Some out, h')"
      "length out = n" "mset (heap h1) = mset out + mset (heap h')"
      "heap_ordered st h'" "sorting_key h' = sorting_key h1"
      "sorted_wrt (\<lambda>a b. key_of st h b \<le> key_of st h a) out"
      "\<forall>x \<in> set out. \<forall>y \<in> set (heap h'). key_of st h y \<le> key_of st h x"
    unfolding keq by blast
  have sub: "set out \<union> set (heap h') \<subseteq> set (heap h)"
  proof -
    have "set_mset (mset (heap h1)) = set_mset (mset out + mset (heap h'))"
      using o(3) by simp
    then have "set (heap h1) = set out \<union> set (heap h')" by simp
    moreover have "set_mset (mset (heap h)) = set_mset (add_mset ?x (mset (heap h1)))"
      using h1(3) by simp
    then have "set (heap h1) \<subseteq> set (heap h)" by auto
    ultimately show ?thesis by simp
  qed
  have top: "key_of st h y \<le> key_of st h ?x" if "y \<in> set out \<union> set (heap h')" for y
    using root_max_key[OF Suc.prems(1)] sub that by blast
  have run: "extract_loop st (Suc n) h acc = Inr (acc @ map Some (?x # out), h')"
    using h1(1) o(1) by simp
  have srt: "sorted_wrt (\<lambda>a b. key_of st h b \<le> key_of st h a) (?x # out)"
    using o(6) top by simp
  have rest: "\<forall>x \<in> set (?x # out). \<forall>y \<in> set (heap h'). key_of st h y \<le> key_of st h x"
    using o(7) top by simp
  have ms: "mset (heap h) = mset (?x # out) + mset (heap h')"
    using h1(3) o(3) by simp
  have len: "length (?x # out) = Suc n" using o(2) by simp
  have key: "sorting_key h' = sorting_key h" using o(5) h1(4) by simp
  from run len ms o(4) key srt rest show ?case by blast
qed

text \<open>A store with four records and a heap on \<open>hits\<close> with keys 5, 3, 5, 1.\<close>

definition store4 :: store where
  "store4 = (\<lambda>_. PlayerRecord_init None 0 0 0)
              (0 := PlayerRecord_init (Some ''A'') 5 5 0,
               1 := PlayerRecord_init (Some ''B'') 5 3 0,
               2 := PlayerRecord_init (Some ''C'') 5 5 0,
               3 := PlayerRecord_init (Some ''D'') 5 1 0)"

definition heap4 :: Heap where
  "heap4 = \<lparr>heap = [0, 1, 2, 3],
             mapping = [Some ''A'' \<mapsto> 0, Some ''B'' \<mapsto> 1, Some ''C'' \<mapsto> 2, Some ''D'' \<mapsto> 3],
             sorting_key = Hits\<rparr>"

text \<open>
  \<open>validate_heap\<close> decides the max-heap invariant. \<open>below p i\<close> says that index \<open>i\<close> lies in
  the subtree of the array rooted at index \<open>p\<close>.
\<close>

inductive below :: "nat \<Rightarrow> nat \<Rightarrow> bool" where
  below_refl: "below p p"
| below_left: "below (2 * p + 1) i \<Longrightarrow> below p i"
| below_right: "below (2 * p + 2) i \<Longrightarrow> below p i"

definition subtree_ok :: "rat list \<Rightarrow> nat \<Rightarrow> bool" where
  "subtree_ok hp p \<longleftrightarrow>
     (\<forall>i. below p i \<longrightarrow>
        (2 * i + 1 < length hp \<longrightarrow> hp ! (2 * i + 1) \<le> hp ! i) \<and>
        (2 * i + 2 < length hp \<longrightarrow> hp ! (2 * i + 2) \<le> hp ! i))"

lemma below_ge: "below p i \<Longrightarrow> p \<le> i"
  by (induction rule: below.induct) auto

lemma below_child: "below p i \<Longrightarrow> below p (2 * i + 1) \<and> below p (2 * i + 2)"
proof (induction rule: below.induct)
  case (below_refl p)
  show ?case by (meson below.intros)
next
  case (below_left p i)
  then show ?case by (meson below.intros)
next
  case (below_right p i)
  then show ?case by (meson below.intros)
qed

lemma below_root: "below 0 i"
proof (induction i rule: less_induct)
  case (less i)
  show ?case
  proof (cases "i = 0")
    case True
    then show ?thesis by (simp add: below_refl)
  next
    case False
    then have "(i - 1) div 2 < i" by auto
    then have b: "below 0 ((i - 1) div 2)" by (rule less.IH)
    have "i = 2 * ((i - 1) div 2) + 1 \<or> i = 2 * ((i - 1) div 2) + 2" using False by presburger
    then show ?thesis using below_child[OF b] by metis
  qed
qed

lemma subtree_ok_unfold:
  "subtree_ok hp p \<longleftrightarrow>
     (2 * p + 1 < length hp \<longrightarrow> hp ! (2 * p + 1) \<le> hp ! p) \<and>
     (2 * p + 2 < length hp \<longrightarrow> hp ! (2 * p + 2) \<le> hp ! p) \<and>
     subtree_ok hp (2 * p + 1) \<and> subtree_ok hp (2 * p + 2)"
proof -
  define E where "E i \<longleftrightarrow>
        (2 * i + 1 < length hp \<longrightarrow> hp ! (2 * i + 1) \<le> hp ! i) \<and>
        (2 * i + 2 < length hp \<longrightarrow> hp ! (2 * i + 2) \<le> hp ! i)" for i
  have s: "subtree_ok hp q \<longleftrightarrow> (\<forall>i. below q i \<longrightarrow> E i)" for q
    unfolding subtree_ok_def E_def by (rule refl)
  have "(\<forall>i. below p i \<longrightarrow> E i)
      \<longleftrightarrow> E p \<and> (\<forall>i. below (2 * p + 1) i \<longrightarrow> E i) \<and> (\<forall>i. below (2 * p + 2) i \<longrightarrow> E i)"
  proof (intro iffI conjI allI impI)
    assume a: "\<forall>i. below p i \<longrightarrow> E i"
    show "E p" using a below_refl by blast
    show "E i" if "below (2 * p + 1) i" for i using a below_left[OF that] by blast
    show "E i" if "below (2 * p + 2) i" for i using a below_right[OF that] by blast
  next
    fix i
    assume b: "E p \<and> (\<forall>i. below (2 * p + 1) i \<longrightarrow> E i) \<and> (\<forall>i. below (2 * p + 2) i \<longrightarrow> E i)"
      and i: "below p i"
    from i show "E i"
    proof (cases rule: below.cases)
      case below_refl
      then show ?thesis using b by simp
    next
      case below_left
      then show ?thesis using b by blast
    next
      case below_right
      then show ?thesis using b by blast
    qed
  qed
  then have "subtree_ok hp p \<longleftrightarrow> E p \<and> subtree_ok hp (2 * p + 1) \<and> subtree_ok hp (2 * p + 2)"
    unfolding s .
  then show ?thesis unfolding E_def by (simp add: conj_assoc)
qed

lemma subtree_ok_outside: "length hp \<le> p \<Longrightarrow> subtree_ok hp p"
  unfolding subtree_ok_def using below_ge by fastforce

lemma validate_loop_iff:
  "validate_loop hp stack \<longleftrightarrow> (\<forall>p \<in> set stack. subtree_ok hp p)"
proof (induction hp stack rule: validate_loop.induct)
  case (1 hp stack)
  show ?case
  proof (cases "stack = []")
    case True
    then show ?thesis by (simp add: validate_loop.simps[of hp "[]"])
  next
    case ne: False
    define p where "p = last stack"
    define r0 where "r0 = butlast stack"
    define n where "n = length hp"
    define r1 where "r1 = (if 2 * p + 1 < n then r0 @ [2 * p + 1] else r0)"
    define r2 where "r2 = (if 2 * p + 2 < n then r1 @ [2 * p + 2] else r1)"
    have st: "stack = r0 @ [p]" using ne by (simp add: p_def r0_def)
    have split: "(\<forall>q \<in> set stack. subtree_ok hp q)
        \<longleftrightarrow> (\<forall>q \<in> set r0. subtree_ok hp q) \<and> subtree_ok hp p"
      unfolding st by auto
    show ?thesis
    proof (cases "(2 * p + 1 < n \<and> hp ! (2 * p + 1) > hp ! p)
                  \<or> (2 * p + 2 < n \<and> hp ! (2 * p + 2) > hp ! p)")
      case True
      then have "\<not> validate_loop hp stack"
        using ne by (auto simp: validate_loop.simps[of hp stack] Let_def p_def n_def)
      moreover have "\<not> subtree_ok hp p"
        using True subtree_ok_unfold[of hp p] by (auto simp: n_def)
      ultimately show ?thesis using split by blast
    next
      case False
      then have e1: "\<not> (2 * p + 1 < n \<and> hp ! p < hp ! (2 * p + 1))"
        and e2: "\<not> (2 * p + 2 < n \<and> hp ! p < hp ! (2 * p + 2))" by auto
      have run: "validate_loop hp stack = validate_loop hp r2"
        using ne e1 e2
        by (simp add: validate_loop.simps[of hp stack] Let_def p_def[symmetric]
              r0_def[symmetric] n_def[symmetric] r1_def r2_def)
      have len: "length stack \<noteq> 0" using ne by simp
      have IH: "validate_loop hp r2 \<longleftrightarrow> (\<forall>q \<in> set r2. subtree_ok hp q)"
        by (rule "1.IH"[OF len p_def r0_def refl refl n_def r1_def e1 r2_def e2])
      have "(\<forall>q \<in> set r2. subtree_ok hp q)
          \<longleftrightarrow> (\<forall>q \<in> set r0. subtree_ok hp q)
              \<and> subtree_ok hp (2 * p + 1) \<and> subtree_ok hp (2 * p + 2)"
        using subtree_ok_outside[of hp "2 * p + 1"] subtree_ok_outside[of hp "2 * p + 2"]
        by (auto simp: r2_def r1_def n_def)
      also have "\<dots> \<longleftrightarrow> (\<forall>q \<in> set r0. subtree_ok hp q) \<and> subtree_ok hp p"
        using e1 e2 subtree_ok_unfold[of hp p] by (auto simp: n_def)
      finally show ?thesis using run IH split by simp
    qed
  qed
qed

lemma validate_heap_iff: "validate_heap st h \<longleftrightarrow> heap_ordered st h"
proof -
  let ?hp = "map (key_of st h) (heap h)"
  have k: "?hp ! i = kat st h i" if "i < length (heap h)" for i
    using that by (simp add: kat_def)
  have "validate_heap st h \<longleftrightarrow> subtree_ok ?hp 0"
    by (simp add: validate_heap_def validate_loop_iff)
  also have "\<dots> \<longleftrightarrow> heap_ordered st h"
  proof
    assume ok: "subtree_ok ?hp 0"
    show "heap_ordered st h"
      unfolding heap_ordered_iff
    proof (intro allI impI)
      fix i assume i: "0 < i \<and> i < length (heap h)"
      let ?j = "(i - 1) div 2"
      have c: "i = 2 * ?j + 1 \<or> i = 2 * ?j + 2" using i by presburger
      have j: "?j < length (heap h)" using i by auto
      have "(2 * ?j + 1 < length ?hp \<longrightarrow> ?hp ! (2 * ?j + 1) \<le> ?hp ! ?j) \<and>
            (2 * ?j + 2 < length ?hp \<longrightarrow> ?hp ! (2 * ?j + 2) \<le> ?hp ! ?j)"
        using ok below_root[of ?j] unfolding subtree_ok_def by blast
      then have "?hp ! i \<le> ?hp ! ?j" using c i by auto
      then show "kat st h i \<le> kat st h ?j" using k i j by simp
    qed
  next
    assume ord: "heap_ordered st h"
    have e: "?hp ! c \<le> ?hp ! i" if "c < length ?hp" "c = 2 * i + 1 \<or> c = 2 * i + 2" for c i
    proof -
      have "0 < c \<and> c < length (heap h)" "(c - 1) div 2 = i" using that by auto
      then have "kat st h c \<le> kat st h i" using ord unfolding heap_ordered_iff by blast
      moreover have "i < length (heap h)" using that by auto
      ultimately show ?thesis using k that(1) by simp
    qed
    show "subtree_ok ?hp 0"
      unfolding subtree_ok_def using e by blast
  qed
  finally show ?thesis .
qed

section \<open>The claims\<close>

text \<open>
  C10: on a heap with at least one element, \<open>heapify_up(child)\<close> with
  \<open>0 \<le> child < len(heap)\<close> returns without raising. For \<open>child = 0\<close> the parent index is
  \<open>(0 - 1) / 2 = -1\<close>, the loop guard reads \<open>heap[-1]\<close>, which is the last element, and
  the call returns the heap with its array and its mapping unchanged.
\<close>

theorem heapify_up_in_range_returns:
  assumes "0 \<le> child" and "child < int (length (heap h))"
  shows "(\<exists>h'. heapify_up st h child = Inr h')
       \<and> (0 - 1) div 2 = (- 1 :: int)
       \<and> getitem (heap h) ((0 - 1) div 2) = Inr (last (heap h))
       \<and> heapify_up st h 0 = Inr h"
proof -
  have ne: "heap h \<noteq> []" using assms by auto
  have "\<exists>h'. heapify_up st h child = Inr h'"
    using heapify_up_kept[OF assms, of "length (heap h)" st] by auto
  then show ?thesis using ne by (simp add: getitem_minus_one heapify_up_root)
qed

theorem heapify_up_in_range_returns_witness:
  "(0::int) \<le> 1 \<and> 1 < int (length (heap heap2))
   \<and> (\<exists>h'. heapify_up store2 heap2 1 = Inr h')
   \<and> heapify_up store2 heap2 0 = Inr heap2"
  using heapify_up_in_range_returns[of 1 heap2 store2] by (simp add: heap2_def)

text \<open>
  C1 (the code departs from the claim): \<open>extract_max\<close> exchanges the first and the last
  array slot without touching \<open>mapping\<close>. On the valid heap \<open>[Q, P]\<close> with mapping
  \<open>Q \<mapsto> 0, P \<mapsto> 1\<close> it returns \<open>Q\<close> and leaves the array \<open>[P]\<close>, while the mapping still
  has the entry \<open>Q \<mapsto> 0\<close> of the removed record and sends \<open>P\<close> to index 1, which is now
  outside the array. The same happens through the tracker: after two players with one
  hit each and the query \<open>current_best('hits', 1)\<close>, the array of the hits heap is \<open>[Q, P]\<close>
  and the mapping sends both \<open>P\<close> and \<open>Q\<close> to index 1.
\<close>

theorem extract_max_leaves_mapping_stale:
  "(case extract_max store2 heap2_valid of
      Inl e \<Rightarrow> False
    | Inr (out, h') \<Rightarrow>
        out = Some 1 \<and> heap h' = [0] \<and>
        mapping h' (Some ''Q'') = Some 0 \<and> mapping h' (Some ''P'') = Some 1)
   \<and>
   (case run_operations world_init [OpN ''P'' 1 0, OpN ''Q'' 1 0, OpCB ''hits'' 1] of
      Inl e \<Rightarrow> False
    | Inr w \<Rightarrow>
        map (\<lambda>r. player (objects w r)) (heap (hitsHeap (problem w))) = [Some ''Q'', Some ''P'']
        \<and> get_index (objects w) (hitsHeap (problem w)) 1 = Some 1
        \<and> mapping (hitsHeap (problem w)) (Some ''Q'') = Some 1
        \<and> mapping (hitsHeap (problem w)) (Some ''P'') = Some 1)"
  by (simp add: eval_defs store2_def heap2_valid_def)

text \<open>
  C2 (the code departs from the claim): two players with one hit in one at-bat each, the
  query \<open>current_best('avg', 1)\<close>, then an at-bat without a hit for \<open>Q\<close>. Every call
  returns normally and \<open>validate_heap\<close> holds on all four heaps before the last call.
  The query left \<open>Q\<close> at the root of the average heap with the stale index 1 in the
  mapping, so \<open>new_at_bat\<close> repairs downwards from index 1; \<open>Q\<close> stays at the root with
  average 1/2 above \<open>P\<close> with average 1, and \<open>validate_heap\<close> is false on the average heap.
\<close>

theorem new_at_bat_breaks_avg_heap:
  "(case run_operations world_init [OpN ''P'' 1 0, OpN ''Q'' 1 0, OpCB ''avg'' 1] of
      Inl e \<Rightarrow> False
    | Inr w \<Rightarrow>
        validate_heap (objects w) (abHeap (problem w)) \<and>
        validate_heap (objects w) (hitsHeap (problem w)) \<and>
        validate_heap (objects w) (rbiHeap (problem w)) \<and>
        validate_heap (objects w) (avgHeap (problem w)) \<and>
        (case new_at_bat w ''Q'' 0 0 of
           Inl e \<Rightarrow> False
         | Inr w' \<Rightarrow>
             map (\<lambda>r. (player (objects w' r), avg (objects w' r))) (heap (avgHeap (problem w')))
               = [(Some ''Q'', 1 / 2), (Some ''P'', 1)]
             \<and> \<not> validate_heap (objects w') (avgHeap (problem w'))))"
  by (simp add: eval_defs)

text \<open>
  C7 (the code departs from the claim): in the state reached by the four calls of C2,
  two identities are tracked and \<open>current_best('avg', 2)\<close> returns two records, but in
  ascending order of \<open>avg\<close>: \<open>Q\<close> with 1/2 first, then \<open>P\<close> with 1.
\<close>

theorem current_best_not_descending:
  "(case run_operations world_init
           [OpN ''P'' 1 0, OpN ''Q'' 1 0, OpCB ''avg'' 1, OpN ''Q'' 0 0] of
      Inl e \<Rightarrow> False
    | Inr w \<Rightarrow>
        length (heap (avgHeap (problem w))) = 2 \<and>
        (case current_best w ''avg'' 2 of
           Inl e \<Rightarrow> False
         | Inr (out, w') \<Rightarrow>
             map_option (map (map_option (\<lambda>r. (player (objects w r), avg (objects w r))))) out
               = Some [Some (Some ''Q'', 1 / 2), Some (Some ''P'', 1)]))"
  by (simp add: eval_defs numeral_2_eq_2)

text \<open>
  C3, as the code has it: for a name other than \<open>ab\<close>, \<open>hits\<close>, \<open>rbi\<close> and \<open>avg\<close>,
  \<open>current_best\<close> raises nothing. It prints \<open>not valid\<close> and returns \<open>None\<close>; the record
  map, the four heaps and the records are unchanged.
\<close>

theorem current_best_unknown_stat_returns_none:
  assumes "s \<notin> {''ab'', ''hits'', ''rbi'', ''avg''}"
  shows "\<exists>w'. current_best w s k = Inr (None, w')
             \<and> problem w' = problem w \<and> objects w' = objects w
             \<and> stdout w' = stdout w @ [''not valid'']"
  using assms by (simp add: current_best_def heap_named_def)

theorem current_best_unknown_stat_returns_none_witness:
  "''unknown_stat'' \<notin> {''ab'', ''hits'', ''rbi'', ''avg''}
   \<and> (\<exists>w'. current_best world_init ''unknown_stat'' 3 = Inr (None, w')
             \<and> problem w' = problem world_init \<and> objects w' = objects world_init
             \<and> stdout w' = stdout world_init @ [''not valid''])"
  using current_best_unknown_stat_returns_none[of "''unknown_stat''" world_init 3] by simp

text \<open>
  C3 as stated fails: \<open>current_best('unknown_stat', 3)\<close> on the new tracker is not an
  error but a normal return of \<open>None\<close>.
\<close>

theorem current_best_unknown_stat_no_error:
  "\<not> isl (current_best world_init ''unknown_stat'' 3)
   \<and> current_best world_init ''unknown_stat'' 3
       = Inr (None, world_init\<lparr>stdout := [''not valid'']\<rparr>)"
  by (simp add: current_best_def heap_named_def world_init_def)

text \<open>
  C4: \<open>current_stats\<close> has no failing path, and for a player that is not in the record
  map it returns the sentinel of its docstring, \<open>PlayerRecord(None, 1, 0, 0)\<close>: no
  identity, \<open>ab = 1\<close>, no hits, no runs batted in and average 0.
\<close>

theorem current_stats_unseen_default:
  assumes "player_record_mapping (problem w) p = None"
  shows "current_stats w p = PlayerRecord_init None 1 0 0
       \<and> player (current_stats w p) = None \<and> ab (current_stats w p) = 1
       \<and> hits (current_stats w p) = 0 \<and> rbi (current_stats w p) = 0
       \<and> avg (current_stats w p) = 0"
  using assms by (simp add: current_stats_def PlayerRecord_init_def)

theorem current_stats_unseen_default_witness:
  "player_record_mapping (problem world_init) ''nobody'' = None
   \<and> current_stats world_init ''nobody'' = PlayerRecord_init None 1 0 0
   \<and> player (current_stats world_init ''nobody'') = None
   \<and> ab (current_stats world_init ''nobody'') = 1
   \<and> hits (current_stats world_init ''nobody'') = 0
   \<and> rbi (current_stats world_init ''nobody'') = 0
   \<and> avg (current_stats world_init ''nobody'') = 0"
proof -
  have h: "player_record_mapping (problem world_init) ''nobody'' = None"
    by (simp add: world_init_def Problem_init_def)
  from current_stats_unseen_default[OF h] h show ?thesis by blast
qed

text \<open>
  C9: in every state of the tracker between calls, a player \<open>p\<close> of the record map, with
  record object \<open>r\<close>, occurs exactly once in the array of each of the four heaps, as the
  object \<open>r\<close> itself: the heaps hold the reference that the map holds, so they see the same
  field values. The entry is never removed: it is still there after any further operation.
\<close>

theorem tracked_record_once_in_each_heap:
  assumes "reachable w" and "player_record_mapping (problem w) p = Some r"
  shows "player (objects w r) = Some p
       \<and> (\<forall>a. count_list (heap (the_heap (problem w) a)) r = 1
              \<and> count_list (map (\<lambda>x. player (objects w x)) (heap (the_heap (problem w) a)))
                    (Some p) = 1)
       \<and> (\<forall>x w'. apply_operation w x = Inr w' \<longrightarrow>
              player_record_mapping (problem w') p = Some r)"
proof -
  have inv: "tracker_inv w" using assms(1) by (rule reachable_inv)
  have ident: "player (objects w r) = Some p"
    using inv assms(2) unfolding tracker_inv_def records_ok_def by blast
  have keep: "player_record_mapping (problem w') p = Some r"
    if op: "apply_operation w x = Inr w'" for x w'
  proof (cases x)
    case (OpN q dh dr)
    then have "new_at_bat w q dh dr = Inr w'" using op by simp
    from new_at_bat_record_map[OF inv this assms(2)] show ?thesis .
  next
    case (OpCS q)
    then have "w' = w" using op by simp
    then show ?thesis using assms(2) by simp
  next
    case (OpCB s k)
    then obtain out where "current_best w s k = Inr (out, w')"
      using op by (cases "current_best w s k") auto
    from current_best_record_map[OF this] assms(2) show ?thesis by simp
  qed
  show ?thesis
  proof (intro conjI allI impI)
    show "player (objects w r) = Some p" by (rule ident)
  next
    fix a
    show "count_list (heap (the_heap (problem w) a)) r = 1"
      using heap_tracks_once[OF inv assms(2), of a] by (rule conjunct1)
  next
    fix a
    show "count_list (map (\<lambda>x. player (objects w x)) (heap (the_heap (problem w) a)))
            (Some p) = 1"
      using heap_tracks_once[OF inv assms(2), of a] by (rule conjunct2)
  next
    fix x w' assume "apply_operation w x = Inr w'"
    then show "player_record_mapping (problem w') p = Some r" by (rule keep)
  qed
qed

theorem tracked_record_once_in_each_heap_witness:
  "reachable (after [OpN ''P'' 1 0, OpN ''Q'' 1 0, OpCB ''hits'' 1])
   \<and> player_record_mapping (problem (after [OpN ''P'' 1 0, OpN ''Q'' 1 0, OpCB ''hits'' 1])) ''Q''
       = Some 1
   \<and> count_list (heap (hitsHeap (problem (after [OpN ''P'' 1 0, OpN ''Q'' 1 0, OpCB ''hits'' 1]))))
         1 = 1
   \<and> count_list (heap (avgHeap (problem (after [OpN ''P'' 1 0, OpN ''Q'' 1 0, OpCB ''hits'' 1]))))
         1 = 1"
proof -
  let ?w = "after [OpN ''P'' 1 0, OpN ''Q'' 1 0, OpCB ''hits'' 1]"
  have r: "reachable ?w" by (rule reachable_after)
  have m: "player_record_mapping (problem ?w) ''Q'' = Some 1"
    by (simp add: after_def eval_defs)
  from tracked_record_once_in_each_heap[OF r m]
  have "\<forall>a. count_list (heap (the_heap (problem ?w) a)) 1 = 1" by blast
  then have "count_list (heap (the_heap (problem ?w) Hits)) 1 = 1"
    "count_list (heap (the_heap (problem ?w) Avg)) 1 = 1" by blast+
  then show ?thesis using r m by simp
qed





text \<open>
  C6: on a heap whose array satisfies the max-heap invariant, that is, on which
  \<open>validate_heap\<close> returns true, \<open>len(heap)\<close> successive calls of \<open>extract_max\<close> (collected
  as \<open>current_best\<close> collects them) all return a record, empty the heap, and yield the
  records of the heap, each as often as it occurs there, in non-increasing order of the
  heap's key. Nothing is stated about the order of records with equal keys.
\<close>

theorem extract_all_sorted:
  assumes "validate_heap st h"
  shows "\<exists>out h'. extract_loop st (length (heap h)) h [] = Inr (map Some out, h')
           \<and> length out = length (heap h) \<and> heap h' = []
           \<and> mset out = mset (heap h)
           \<and> sorted_wrt (\<lambda>a b. key_of st h b \<le> key_of st h a) out"
proof -
  have ord: "heap_ordered st h" using assms by (simp add: validate_heap_iff)
  from extract_loop_sorted[OF ord order_refl, of "[]"]
  obtain out h' where o: "extract_loop st (length (heap h)) h [] = Inr (map Some out, h')"
      "length out = length (heap h)" "mset (heap h) = mset out + mset (heap h')"
      "sorted_wrt (\<lambda>a b. key_of st h b \<le> key_of st h a) out"
    by auto
  have "size (mset (heap h)) = size (mset out) + size (mset (heap h'))"
    using o(3) by simp
  then have e: "heap h' = []" using o(2) by simp
  then have "mset out = mset (heap h)" using o(3) by simp
  then show ?thesis using o(1,2,4) e by blast
qed

theorem extract_all_sorted_witness:
  "validate_heap store4 heap4
   \<and> (\<exists>out h'. extract_loop store4 (length (heap heap4)) heap4 [] = Inr (map Some out, h')
           \<and> length out = 4 \<and> heap h' = [] \<and> mset out = mset (heap heap4)
           \<and> sorted_wrt (\<lambda>a b. key_of store4 heap4 b \<le> key_of store4 heap4 a) out)"
proof -
  have v: "validate_heap store4 heap4"
    by (simp add: validate_heap_def validate_loop.simps key_of_def heap4_def store4_def
          PlayerRecord_init_def Let_def)
  have "length (heap heap4) = 4" by (simp add: heap4_def)
  then show ?thesis using extract_all_sorted[OF v] v by simp
qed

end
